theory Spec2Isabelle
  imports Main "HOL-Library.Word"
begin

section \<open>Memory model\<close>

text \<open>
  The class \<open>MutexValidator\<close> of \<open>MutexValidator.cpp\<close> keeps three raw pointers
  (to a \<open>std::recursive_mutex\<close>, a \<open>std::size_t\<close> and a \<open>bool\<close>) and one plain
  \<open>bool\<close>. The three pointees live on the heap, each allocated by its own \<open>new\<close>
  and released by its own \<open>delete\<close>. The heap is modelled by one store per pointee
  type: a list of cells, the address being the index, a released cell being \<open>None\<close>.
  \<open>new\<close> appends a cell, so an address is never handed out twice and a dangling
  pointer stays recognisable. The objects of the class themselves live in a fourth store.
\<close>

type_synonym addr = nat

type_synonym size_t = "64 word"

record MutexValidator =
  Mtx :: addr
  Counter :: addr
  IsValid :: addr
  IsOriginal :: bool

text \<open>
  What an execution does to the heap, in program order. The order of the writes, the
  deletes and the lock calls inside one member function is what several properties are about.
\<close>

datatype event =
    Ev_lock addr
  | Ev_unlock addr
  | Ev_unlock_deleted addr
  | Ev_flag addr bool
  | Ev_counter addr size_t
  | Ev_delete_mutex addr
  | Ev_delete_counter addr
  | Ev_delete_flag addr

text \<open>
  Accesses the C++ standard leaves undefined, at which an execution of the model stops:
  a \<open>lock\<close> of a mutex that has been deleted, an \<open>unlock\<close> of a mutex the caller
  does not hold, a read or write through a pointer whose pointee has been deleted, a
  second \<open>delete\<close> of one pointee, a member call on an object whose lifetime has ended.

  One more undefined call is made by the member functions themselves: the
  \<open>Mtx->unlock()\<close> of lines 81 and 143, when the \<open>delete Mtx\<close> of lines 76 and 138
  has just run. The compiled program returns from that call and goes on, and so does the
  model, so that what the code does after it is covered: the call is recorded as the
  event \<open>Ev_unlock_deleted\<close> and changes nothing.
\<close>

datatype pointee = The_mutex | The_counter | The_flag

datatype fault =
    Lock_deleted addr
  | Unlock_unheld addr
  | Access_deleted pointee addr
  | Delete_deleted pointee addr
  | Object_dead addr

text \<open>
  A \<open>std::recursive_mutex\<close>, as the C++ library documents it, is free, or owned by one
  thread that has acquired it once or more: \<open>Held ow k\<close> is owned by thread \<open>ow\<close>,
  which has acquired it \<open>k + 1\<close> times.
\<close>

datatype mutex = Free | Held nat nat

definition held_by_other :: "nat \<Rightarrow> mutex \<Rightarrow> bool" where
  "held_by_other me d = (case d of Free \<Rightarrow> False | Held ow k \<Rightarrow> ow \<noteq> me)"

definition held_by :: "nat \<Rightarrow> mutex \<Rightarrow> bool" where
  "held_by me d = (case d of Free \<Rightarrow> False | Held ow k \<Rightarrow> ow = me)"

fun acquired :: "nat \<Rightarrow> mutex \<Rightarrow> mutex" where
  "acquired me Free = Held me 0"
| "acquired me (Held ow k) = Held ow (Suc k)"

fun released :: "mutex \<Rightarrow> mutex" where
  "released Free = Free"
| "released (Held ow 0) = Free"
| "released (Held ow (Suc k)) = Held ow k"

text \<open>
  \<open>thread\<close> is the thread that is running; the calls of a member function are not
  interleaved with those of another thread. \<open>out\<close> is what has been written to
  \<open>std::cout\<close>.
\<close>

record state =
  mutexes :: "mutex option list"
  counters :: "size_t option list"
  flags :: "bool option list"
  objs :: "MutexValidator option list"
  trace :: "event list"
  out :: string
  thread :: nat

text \<open>
  A call completes with a value, or stops at an undefined access, or waits for a mutex
  that another thread holds; in the last two cases the state is the one reached.
\<close>

datatype 'a result = Done 'a state | Undefined fault state | Blocked addr state

fun then_do :: "'a result \<Rightarrow> ('a \<Rightarrow> state \<Rightarrow> 'b result) \<Rightarrow> 'b result" where
  "then_do (Done a s) f = f a s"
| "then_do (Undefined e s) f = Undefined e s"
| "then_do (Blocked m s) f = Blocked m s"

definition cell :: "'a option list \<Rightarrow> addr \<Rightarrow> 'a option" where
  "cell st a = (if a < length st then st ! a else None)"

definition emit :: "event \<Rightarrow> state \<Rightarrow> state" where
  "emit e s = s\<lparr>trace := trace s @ [e]\<rparr>"

subsection \<open>The recursive mutex\<close>

text \<open>
  \<open>lock\<close> waits while another thread owns the mutex. \<open>try_lock\<close> does not wait: it
  returns false then, and acquires the mutex and returns true otherwise. (The library
  lets \<open>try_lock\<close> fail on a mutex that nobody owns; here it does not.) \<open>delete\<close>
  releases the storage of a mutex whether it is owned or not.
\<close>

definition mtx_lock :: "addr \<Rightarrow> state \<Rightarrow> unit result" where
  "mtx_lock m s =
     (case cell (mutexes s) m of
        None \<Rightarrow> Undefined (Lock_deleted m) s
      | Some d \<Rightarrow>
          if held_by_other (thread s) d then Blocked m s
          else Done () (emit (Ev_lock m)
                 (s\<lparr>mutexes := (mutexes s)[m := Some (acquired (thread s) d)]\<rparr>)))"

definition mtx_try_lock :: "addr \<Rightarrow> state \<Rightarrow> bool result" where
  "mtx_try_lock m s =
     (case cell (mutexes s) m of
        None \<Rightarrow> Undefined (Lock_deleted m) s
      | Some d \<Rightarrow>
          if held_by_other (thread s) d then Done False s
          else Done True (emit (Ev_lock m)
                 (s\<lparr>mutexes := (mutexes s)[m := Some (acquired (thread s) d)]\<rparr>)))"

definition mtx_unlock :: "addr \<Rightarrow> state \<Rightarrow> unit result" where
  "mtx_unlock m s =
     (case cell (mutexes s) m of
        None \<Rightarrow> Done () (emit (Ev_unlock_deleted m) s)
      | Some d \<Rightarrow>
          if held_by (thread s) d
          then Done () (emit (Ev_unlock m) (s\<lparr>mutexes := (mutexes s)[m := Some (released d)]\<rparr>))
          else Undefined (Unlock_unheld m) s)"

definition delete_mutex :: "addr \<Rightarrow> state \<Rightarrow> unit result" where
  "delete_mutex m s =
     (case cell (mutexes s) m of
        None \<Rightarrow> Undefined (Delete_deleted The_mutex m) s
      | Some d \<Rightarrow> Done () (emit (Ev_delete_mutex m) (s\<lparr>mutexes := (mutexes s)[m := None]\<rparr>)))"

subsection \<open>The counter and the flag\<close>

definition load_counter :: "addr \<Rightarrow> state \<Rightarrow> size_t result" where
  "load_counter c s =
     (case cell (counters s) c of
        None \<Rightarrow> Undefined (Access_deleted The_counter c) s
      | Some n \<Rightarrow> Done n s)"

definition store_counter :: "addr \<Rightarrow> size_t \<Rightarrow> state \<Rightarrow> unit result" where
  "store_counter c n s =
     (case cell (counters s) c of
        None \<Rightarrow> Undefined (Access_deleted The_counter c) s
      | Some old \<Rightarrow> Done () (emit (Ev_counter c n) (s\<lparr>counters := (counters s)[c := Some n]\<rparr>)))"

definition delete_counter :: "addr \<Rightarrow> state \<Rightarrow> unit result" where
  "delete_counter c s =
     (case cell (counters s) c of
        None \<Rightarrow> Undefined (Delete_deleted The_counter c) s
      | Some n \<Rightarrow> Done () (emit (Ev_delete_counter c) (s\<lparr>counters := (counters s)[c := None]\<rparr>)))"

text \<open>\<open>++*Counter\<close> and \<open>--*Counter\<close> on a \<open>std::size_t\<close>: both wrap around.\<close>

definition incr_counter :: "addr \<Rightarrow> state \<Rightarrow> unit result" where
  "incr_counter c s = then_do (load_counter c s) (\<lambda>n. store_counter c (n + 1))"

definition decr_counter :: "addr \<Rightarrow> state \<Rightarrow> unit result" where
  "decr_counter c s = then_do (load_counter c s) (\<lambda>n. store_counter c (n - 1))"

definition load_flag :: "addr \<Rightarrow> state \<Rightarrow> bool result" where
  "load_flag v s =
     (case cell (flags s) v of
        None \<Rightarrow> Undefined (Access_deleted The_flag v) s
      | Some b \<Rightarrow> Done b s)"

definition store_flag :: "addr \<Rightarrow> bool \<Rightarrow> state \<Rightarrow> unit result" where
  "store_flag v b s =
     (case cell (flags s) v of
        None \<Rightarrow> Undefined (Access_deleted The_flag v) s
      | Some old \<Rightarrow> Done () (emit (Ev_flag v b) (s\<lparr>flags := (flags s)[v := Some b]\<rparr>)))"

definition delete_flag :: "addr \<Rightarrow> state \<Rightarrow> unit result" where
  "delete_flag v s =
     (case cell (flags s) v of
        None \<Rightarrow> Undefined (Delete_deleted The_flag v) s
      | Some b \<Rightarrow> Done () (emit (Ev_delete_flag v) (s\<lparr>flags := (flags s)[v := None]\<rparr>)))"

section \<open>The member functions of MutexValidator\<close>

text \<open>
  The default constructor (lines 38-45): three allocations, then \<open>IsOriginal = true\<close>.
  It returns the address of the object constructed.
\<close>

definition MutexValidator_new :: "state \<Rightarrow> addr result" where
  "MutexValidator_new s =
     Done (length (objs s))
       (s\<lparr>mutexes := mutexes s @ [Some Free],
          counters := counters s @ [Some 1],
          flags := flags s @ [Some True],
          objs := objs s @
            [Some \<lparr>Mtx = length (mutexes s), Counter = length (counters s),
                   IsValid = length (flags s), IsOriginal = True\<rparr>]\<rparr>)"

text \<open>The copy constructor (lines 49-61).\<close>

definition MutexValidator_copy :: "addr \<Rightarrow> state \<Rightarrow> addr result" where
  "MutexValidator_copy other s =
     (case cell (objs s) other of
        None \<Rightarrow> Undefined (Object_dead other) s
      | Some ot \<Rightarrow>
          then_do (mtx_lock (Mtx ot) s) (\<lambda>_ s1.
          then_do (incr_counter (Counter ot) s1) (\<lambda>_ s2.
          then_do (Done (length (objs s2))
                     (s2\<lparr>objs := objs s2 @
                        [Some \<lparr>Mtx = Mtx ot, Counter = Counter ot,
                               IsValid = IsValid ot, IsOriginal = False\<rparr>]\<rparr>)) (\<lambda>this s3.
          then_do (mtx_unlock (Mtx ot) s3) (\<lambda>_ s4.
          Done this s4)))))"

text \<open>The three \<open>delete\<close> statements both \<open>operator=\<close> and the destructor run when the counter is 0.\<close>

definition delete_block :: "MutexValidator \<Rightarrow> state \<Rightarrow> unit result" where
  "delete_block t s =
     then_do (delete_mutex (Mtx t) s) (\<lambda>_ s1.
     then_do (delete_counter (Counter t) s1) (\<lambda>_ s2.
     delete_flag (IsValid t) s2))"

text \<open>\<open>operator=\<close>, lines 70-81 ("Clear old data").\<close>

definition clear_old :: "MutexValidator \<Rightarrow> state \<Rightarrow> unit result" where
  "clear_old t s =
     then_do (mtx_lock (Mtx t) s) (\<lambda>_ s1.
     then_do (decr_counter (Counter t) s1) (\<lambda>_ s2.
     then_do (load_counter (Counter t) s2) (\<lambda>n s3.
     then_do (if n = 0 then delete_block t s3 else Done () s3) (\<lambda>_ s4.
     mtx_unlock (Mtx t) s4))))"

text \<open>\<open>operator=\<close>, lines 83-93 ("Set new data").\<close>

definition set_new :: "addr \<Rightarrow> addr \<Rightarrow> state \<Rightarrow> unit result" where
  "set_new this other s =
     (case cell (objs s) other of
        None \<Rightarrow> Undefined (Object_dead other) s
      | Some ot \<Rightarrow>
          then_do (mtx_lock (Mtx ot) s) (\<lambda>_ s1.
          then_do (incr_counter (Counter ot) s1) (\<lambda>_ s2.
          then_do (Done ()
                     (s2\<lparr>objs := (objs s2)[this := Some \<lparr>Mtx = Mtx ot, Counter = Counter ot,
                               IsValid = IsValid ot, IsOriginal = False\<rparr>]\<rparr>)) (\<lambda>_ s3.
          mtx_unlock (Mtx ot) s3))))"

text \<open>\<open>operator=\<close> (lines 65-97).\<close>

definition assign :: "addr \<Rightarrow> addr \<Rightarrow> state \<Rightarrow> unit result" where
  "assign this other s =
     (if this \<noteq> other then
        (case cell (objs s) this of
           None \<Rightarrow> Undefined (Object_dead this) s
         | Some t \<Rightarrow> then_do (clear_old t s) (\<lambda>_ s1. set_new this other s1))
      else Done () s)"

text \<open>\<open>GetIsValid\<close>, \<open>Lock\<close>, \<open>TryLock\<close> and \<open>Unlock\<close> (lines 102-124).\<close>

definition GetIsValid :: "addr \<Rightarrow> state \<Rightarrow> bool result" where
  "GetIsValid this s =
     (case cell (objs s) this of
        None \<Rightarrow> Undefined (Object_dead this) s
      | Some t \<Rightarrow> load_flag (IsValid t) s)"

definition Lock :: "addr \<Rightarrow> state \<Rightarrow> unit result" where
  "Lock this s =
     (case cell (objs s) this of
        None \<Rightarrow> Undefined (Object_dead this) s
      | Some t \<Rightarrow> mtx_lock (Mtx t) s)"

definition TryLock :: "addr \<Rightarrow> state \<Rightarrow> bool result" where
  "TryLock this s =
     (case cell (objs s) this of
        None \<Rightarrow> Undefined (Object_dead this) s
      | Some t \<Rightarrow> mtx_try_lock (Mtx t) s)"

definition Unlock :: "addr \<Rightarrow> state \<Rightarrow> unit result" where
  "Unlock this s =
     (case cell (objs s) this of
        None \<Rightarrow> Undefined (Object_dead this) s
      | Some t \<Rightarrow> mtx_unlock (Mtx t) s)"

text \<open>
  The destructor (lines 127-144). The lifetime of the object ends when the body has run.
\<close>

definition destroy :: "addr \<Rightarrow> state \<Rightarrow> unit result" where
  "destroy this s =
     (case cell (objs s) this of
        None \<Rightarrow> Undefined (Object_dead this) s
      | Some t \<Rightarrow>
          then_do (mtx_lock (Mtx t) s) (\<lambda>_ s1.
          then_do (if IsOriginal t then store_flag (IsValid t) False s1 else Done () s1) (\<lambda>_ s2.
          then_do (decr_counter (Counter t) s2) (\<lambda>_ s3.
          then_do (load_counter (Counter t) s3) (\<lambda>n s4.
          then_do (if n = 0 then delete_block t s4 else Done () s4) (\<lambda>_ s5.
          then_do (mtx_unlock (Mtx t) s5) (\<lambda>_ s6.
          Done () (s6\<lparr>objs := (objs s6)[this := None]\<rparr>))))))))"

section \<open>The demonstration program\<close>

definition print_bool :: "bool \<Rightarrow> state \<Rightarrow> unit result" where
  "print_bool b s = Done () (s\<lparr>out := out s @ [if b then CHR ''1'' else CHR ''0'', CHR 0x0A]\<rparr>)"

definition start :: state where
  "start = \<lparr>mutexes = [], counters = [], flags = [], objs = [], trace = [], out = [],
             thread = 0\<rparr>"

text \<open>
  \<open>main\<close> (lines 147-161); the value is the exit code. The destructor of the local
  \<open>mwv\<close> runs when \<open>main\<close> returns.
\<close>

definition main :: "int result" where
  "main =
     then_do (MutexValidator_new start) (\<lambda>mwvp s1.
     then_do (MutexValidator_copy mwvp s1) (\<lambda>mwv s2.
     then_do (Lock mwv s2) (\<lambda>_ s3.
     then_do (GetIsValid mwv s3) (\<lambda>b s4.
     then_do (print_bool b s4) (\<lambda>_ s5.
     then_do (Unlock mwv s5) (\<lambda>_ s6.
     then_do (destroy mwvp s6) (\<lambda>_ s7.
     then_do (Lock mwv s7) (\<lambda>_ s8.
     then_do (GetIsValid mwv s8) (\<lambda>b s9.
     then_do (print_bool b s9) (\<lambda>_ s10.
     then_do (Unlock mwv s10) (\<lambda>_ s11.
     then_do (destroy mwv s11) (\<lambda>_ s12.
     Done 0 s12))))))))))))"

section \<open>Client programs\<close>

text \<open>
  A client is a sequence of calls on objects of the class, each made by the thread that
  is running then; \<open>Switch\<close> lets another thread run. The value a call returns is not
  needed to go on: a constructor returns the next free object address, which the state
  determines.
\<close>

datatype action =
    New
  | Copy addr
  | Assign addr addr
  | Destroy addr
  | Call_Lock addr
  | Call_TryLock addr
  | Call_Unlock addr
  | Call_GetIsValid addr
  | Switch nat

fun perform :: "action \<Rightarrow> state \<Rightarrow> unit result" where
  "perform New s = then_do (MutexValidator_new s) (\<lambda>_. Done ())"
| "perform (Copy other) s = then_do (MutexValidator_copy other s) (\<lambda>_. Done ())"
| "perform (Assign this other) s = assign this other s"
| "perform (Destroy this) s = destroy this s"
| "perform (Call_Lock this) s = Lock this s"
| "perform (Call_TryLock this) s = then_do (TryLock this s) (\<lambda>_. Done ())"
| "perform (Call_Unlock this) s = Unlock this s"
| "perform (Call_GetIsValid this) s = then_do (GetIsValid this s) (\<lambda>_. Done ())"
| "perform (Switch th) s = Done () (s\<lparr>thread := th\<rparr>)"

fun run :: "action list \<Rightarrow> state \<Rightarrow> unit result" where
  "run [] s = Done () s"
| "run (a # as) s = then_do (perform a s) (\<lambda>_. run as)"

fun state_of :: "'a result \<Rightarrow> state" where
  "state_of (Done a s) = s"
| "state_of (Undefined e s) = s"
| "state_of (Blocked m s) = s"

fun value_of :: "'a result \<Rightarrow> 'a option" where
  "value_of (Done a s) = Some a"
| "value_of (Undefined e s) = None"
| "value_of (Blocked m s) = None"

fun fault_of :: "'a result \<Rightarrow> fault option" where
  "fault_of (Done a s) = None"
| "fault_of (Undefined e s) = Some e"
| "fault_of (Blocked m s) = None"

text \<open>The events an execution from \<open>s\<close> to \<open>s'\<close> has added.\<close>

definition events_since :: "state \<Rightarrow> state \<Rightarrow> event list" where
  "events_since s s' = drop (length (trace s)) (trace s')"

text \<open>The values written to the counter at \<open>c\<close>, in order.\<close>

fun stores :: "addr \<Rightarrow> event list \<Rightarrow> size_t list" where
  "stores c [] = []"
| "stores c (Ev_counter c' n # es) = (if c' = c then n # stores c es else stores c es)"
| "stores c (e # es) = stores c es"

text \<open>The deletes of the three pointees of the block at \<open>b\<close>, in order.\<close>

definition frees :: "addr \<Rightarrow> event list \<Rightarrow> event list" where
  "frees b es =
     filter (\<lambda>e. e = Ev_delete_mutex b \<or> e = Ev_delete_counter b \<or> e = Ev_delete_flag b) es"

section \<open>Reference counting\<close>

text \<open>The live objects whose \<open>Counter\<close> points at \<open>b\<close>.\<close>

definition refers :: "MutexValidator option \<Rightarrow> addr \<Rightarrow> bool" where
  "refers x b = (case x of None \<Rightarrow> False | Some t \<Rightarrow> Counter t = b)"

definition referrers :: "MutexValidator option list \<Rightarrow> addr \<Rightarrow> addr list" where
  "referrers os b = filter (\<lambda>h. refers (os ! h) b) [0..<length os]"

text \<open>
  The states the member functions keep to. The three stores grow together, one cell each
  per default construction, so the three pointers of an object are the same index; a
  block is allocated or deleted as a whole; the counter of an allocated block is the
  number of live objects that point at it, and nothing points at a deleted block.
\<close>

definition consistent :: "state \<Rightarrow> bool" where
  "consistent s \<longleftrightarrow>
     length (mutexes s) = length (counters s) \<and>
     length (flags s) = length (counters s) \<and>
     (\<forall>b < length (counters s).
        case counters s ! b of
          None \<Rightarrow> mutexes s ! b = None \<and> flags s ! b = None \<and> referrers (objs s) b = []
        | Some n \<Rightarrow> mutexes s ! b \<noteq> None \<and> flags s ! b \<noteq> None \<and>
                    unat n = length (referrers (objs s) b)) \<and>
     (\<forall>h < length (objs s).
        case objs s ! h of
          None \<Rightarrow> True
        | Some t \<Rightarrow> Mtx t = Counter t \<and> IsValid t = Counter t \<and>
                    Counter t < length (counters s))"

text \<open>
  The validity flags between two states: no flag has been taken away from the store, and
  a flag that did not hold true (it held false, or was deleted) does not hold true.
\<close>

definition flags_kept :: "state \<Rightarrow> state \<Rightarrow> bool" where
  "flags_kept s s' \<longleftrightarrow>
     length (flags s) \<le> length (flags s') \<and>
     (\<forall>b < length (flags s). flags s ! b \<noteq> Some True \<longrightarrow> flags s' ! b \<noteq> Some True)"

section \<open>Example states\<close>

text \<open>An original (object 0) and one copy of it (object 1), sharing block 0.\<close>

definition shared_pair :: state where
  "shared_pair = state_of (run [New, Copy 0] start)"

text \<open>
  The same, with the mutex of block 0 held by thread 0 (through object 0) and thread 1
  running.
\<close>

definition pair_held_elsewhere :: state where
  "pair_held_elsewhere = state_of (run [New, Copy 0, Call_Lock 0, Switch 1] start)"

text \<open>Two originals (objects 0 and 1), each alone on its block.\<close>

definition two_blocks :: state where
  "two_blocks = state_of (run [New, New] start)"

text \<open>An original and its copy on block 0 (objects 0 and 1), an original on block 1 (object 2).\<close>

definition pair_and_single :: state where
  "pair_and_single = state_of (run [New, Copy 0, New] start)"

section \<open>The stores\<close>

lemma cell_less: "cell st a = Some v \<Longrightarrow> a < length st"
  by (simp add: cell_def split: if_splits)

lemma cell_nth: "cell st a = Some v \<Longrightarrow> st ! a = Some v"
  by (simp add: cell_def split: if_splits)

lemma cell_update: "cell (st[a := x]) b = (if b = a \<and> a < length st then x else cell st b)"
  by (simp add: cell_def)

lemma cell_append: "cell (st @ [x]) b = (if b = length st then x else cell st b)"
  by (auto simp add: cell_def nth_append)

lemma cell_update_id: "cell st a = Some v \<Longrightarrow> st[a := Some v] = st"
  by (metis cell_nth list_update_id)

lemmas prim_defs = mtx_lock_def mtx_try_lock_def mtx_unlock_def delete_mutex_def load_counter_def
  store_counter_def delete_counter_def incr_counter_def decr_counter_def load_flag_def
  store_flag_def delete_flag_def emit_def delete_block_def

section \<open>Counting the handles of a block\<close>

lemma mem_referrers: "h \<in> set (referrers os b) \<longleftrightarrow> h < length os \<and> refers (os ! h) b"
  by (auto simp: referrers_def)

lemma distinct_referrers: "distinct (referrers os b)"
  by (simp add: referrers_def)

lemma length_referrers: "length (referrers os b) = card (set (referrers os b))"
  by (simp add: distinct_card distinct_referrers)

lemma referrers_append:
  "referrers (os @ [x]) b = referrers os b @ (if refers x b then [length os] else [])"
  by (auto simp: referrers_def nth_append intro!: filter_cong)

lemma set_referrers_update:
  assumes "h < length os"
  shows "set (referrers (os[h := x]) b) =
           (set (referrers os b) - {h}) \<union> (if refers x b then {h} else {})"
  using assms by (auto simp: mem_referrers nth_list_update split: if_splits)

lemma card_referrers_remove:
  "card (set (referrers os b)) =
     card (set (referrers os b) - {h}) + (if h \<in> set (referrers os b) then 1 else 0)"
proof (cases "h \<in> set (referrers os b)")
  case True
  have "card (set (referrers os b)) = Suc (card (set (referrers os b) - {h}))"
    by (rule card.remove[OF _ True]) simp
  with True show ?thesis by simp
next
  case False
  then show ?thesis by simp
qed

lemma card_referrers_update:
  assumes "h < length os"
  shows "card (set (referrers (os[h := x]) b)) =
     card (set (referrers os b) - {h}) + (if refers x b then 1 else 0)"
proof (cases "refers x b")
  case True
  have "card (insert h (set (referrers os b) - {h})) = Suc (card (set (referrers os b) - {h}))"
    by (rule card_insert_disjoint) simp_all
  moreover have "set (referrers (os[h := x]) b) = insert h (set (referrers os b) - {h})"
    using True by (simp only: set_referrers_update[OF assms] if_True Un_insert_right Un_empty_right)
  ultimately have "card (set (referrers (os[h := x]) b)) = Suc (card (set (referrers os b) - {h}))"
    by (simp only:)
  with True show ?thesis by simp
next
  case False
  then have "set (referrers (os[h := x]) b) = set (referrers os b) - {h}"
    by (simp only: set_referrers_update[OF assms] if_False Un_empty_right)
  with False show ?thesis by simp
qed

lemma length_referrers_update:
  assumes "h < length os"
  shows "length (referrers (os[h := x]) b) + (if refers (os ! h) b then 1 else 0) =
         length (referrers os b) + (if refers x b then 1 else 0)"
proof -
  have "h \<in> set (referrers os b) \<longleftrightarrow> refers (os ! h) b"
    using assms by (simp add: mem_referrers)
  then show ?thesis
    using card_referrers_update[OF assms, of x b] card_referrers_remove[of os b h]
    by (simp only: length_referrers)
qed

lemma referrers_Nil_iff: "referrers os b = [] \<longleftrightarrow> (\<forall>h < length os. \<not> refers (os ! h) b)"
  by (auto simp: referrers_def filter_empty_conv)

lemma refers_cell: "h < length os \<and> refers (os ! h) b \<longleftrightarrow> (\<exists>t. cell os h = Some t \<and> Counter t = b)"
  by (auto simp: refers_def cell_def split: option.splits)

lemma consistent_iff:
  "consistent s \<longleftrightarrow>
     length (mutexes s) = length (counters s) \<and>
     length (flags s) = length (counters s) \<and>
     (\<forall>b. cell (counters s) b = None \<longrightarrow>
          cell (mutexes s) b = None \<and> cell (flags s) b = None \<and> referrers (objs s) b = []) \<and>
     (\<forall>b n. cell (counters s) b = Some n \<longrightarrow>
          cell (mutexes s) b \<noteq> None \<and> cell (flags s) b \<noteq> None \<and>
          unat n = length (referrers (objs s) b)) \<and>
     (\<forall>h t. cell (objs s) h = Some t \<longrightarrow>
          Mtx t = Counter t \<and> IsValid t = Counter t \<and> Counter t < length (counters s))"
  (is "?L \<longleftrightarrow> ?R")
proof
  assume L: ?L
  then have len: "length (mutexes s) = length (counters s)" "length (flags s) = length (counters s)"
    by (simp_all add: consistent_def)
  from L have blk: "\<And>b. b < length (counters s) \<Longrightarrow>
      (case counters s ! b of
          None \<Rightarrow> mutexes s ! b = None \<and> flags s ! b = None \<and> referrers (objs s) b = []
        | Some n \<Rightarrow> mutexes s ! b \<noteq> None \<and> flags s ! b \<noteq> None \<and>
                    unat n = length (referrers (objs s) b))"
    by (simp add: consistent_def)
  from L have ob: "\<And>h. h < length (objs s) \<Longrightarrow>
      (case objs s ! h of None \<Rightarrow> True
        | Some t \<Rightarrow> Mtx t = Counter t \<and> IsValid t = Counter t \<and> Counter t < length (counters s))"
    by (simp add: consistent_def)
  have o: "\<And>h t. cell (objs s) h = Some t \<Longrightarrow>
          Mtx t = Counter t \<and> IsValid t = Counter t \<and> Counter t < length (counters s)"
    using ob by (fastforce simp: cell_def split: if_splits option.splits)
  have far: "referrers (objs s) b = []" if "\<not> b < length (counters s)" for b
  proof -
    have "\<not> refers (objs s ! h) b" if "h < length (objs s)" for h
    proof
      assume "refers (objs s ! h) b"
      with that obtain t where "cell (objs s) h = Some t" "Counter t = b"
        using refers_cell by blast
      with o[of h t] \<open>\<not> b < length (counters s)\<close> show False by simp
    qed
    then show ?thesis by (simp add: referrers_Nil_iff)
  qed
  have none: "cell (mutexes s) b = None \<and> cell (flags s) b = None \<and> referrers (objs s) b = []"
    if "cell (counters s) b = None" for b
  proof (cases "b < length (counters s)")
    case True
    with that have "counters s ! b = None" by (simp add: cell_def)
    with blk[OF True] show ?thesis using True len by (simp add: cell_def)
  next
    case False
    with far len show ?thesis by (simp add: cell_def)
  qed
  have some: "cell (mutexes s) b \<noteq> None \<and> cell (flags s) b \<noteq> None \<and>
          unat n = length (referrers (objs s) b)"
    if "cell (counters s) b = Some n" for b n
  proof -
    from that have b: "b < length (counters s)" and "counters s ! b = Some n"
      by (simp_all add: cell_def split: if_splits)
    with blk[OF b] show ?thesis using len by (simp add: cell_def)
  qed
  show ?R
    using len none some o by blast
next
  assume R: ?R
  then have len: "length (mutexes s) = length (counters s)" "length (flags s) = length (counters s)"
    by simp_all
  have B: "case counters s ! b of
          None \<Rightarrow> mutexes s ! b = None \<and> flags s ! b = None \<and> referrers (objs s) b = []
        | Some n \<Rightarrow> mutexes s ! b \<noteq> None \<and> flags s ! b \<noteq> None \<and>
                    unat n = length (referrers (objs s) b)"
    if b: "b < length (counters s)" for b
  proof (cases "counters s ! b")
    case None
    then have "cell (counters s) b = None" using b by (simp add: cell_def)
    with R have "cell (mutexes s) b = None \<and> cell (flags s) b = None \<and> referrers (objs s) b = []"
      by blast
    then show ?thesis using None b len by (simp add: cell_def)
  next
    case (Some n)
    then have "cell (counters s) b = Some n" using b by (simp add: cell_def)
    with R have "cell (mutexes s) b \<noteq> None \<and> cell (flags s) b \<noteq> None \<and>
          unat n = length (referrers (objs s) b)"
      by blast
    then show ?thesis using Some b len by (simp add: cell_def)
  qed
  have O: "case objs s ! h of None \<Rightarrow> True
        | Some t \<Rightarrow> Mtx t = Counter t \<and> IsValid t = Counter t \<and> Counter t < length (counters s)"
    if h: "h < length (objs s)" for h
  proof (cases "objs s ! h")
    case None
    then show ?thesis by simp
  next
    case (Some t)
    then have "cell (objs s) h = Some t" using h by (simp add: cell_def)
    with R have "Mtx t = Counter t \<and> IsValid t = Counter t \<and> Counter t < length (counters s)"
      by blast
    then show ?thesis using Some by simp
  qed
  show ?L
    unfolding consistent_def using len B O by simp
qed

section \<open>What each member function does to a state\<close>

text \<open>
  A thread that acquires a mutex no other thread holds, holds it, and releasing it then
  gives the mutex back as it was.
\<close>

lemma held_by_acquired: "\<not> held_by_other me d \<Longrightarrow> held_by me (acquired me d)"
  by (cases d) (simp_all add: held_by_other_def held_by_def)

lemma released_acquired: "released (acquired me d) = d"
  by (cases d) simp_all

lemma not_other_acquired: "\<not> held_by_other me d \<Longrightarrow> \<not> held_by_other me (acquired me d)"
  by (cases d) (simp_all add: held_by_other_def)

text \<open>
  On a live object whose three pointees are allocated and whose mutex no other thread
  holds, each member function is straight-line code, and its outcome can be written down.
  The destructor and the first half of \<open>operator=\<close> have two outcomes, by the value the
  counter had. When another thread holds the mutex, the call waits and nothing has changed.
\<close>

lemma copy_result:
  assumes "cell (objs s) other = Some ot" "cell (mutexes s) (Mtx ot) = Some d"
    "\<not> held_by_other (thread s) d" "cell (counters s) (Counter ot) = Some n"
  shows "MutexValidator_copy other s = Done (length (objs s))
     (s\<lparr>counters := (counters s)[Counter ot := Some (n + 1)],
        objs := objs s @ [Some \<lparr>Mtx = Mtx ot, Counter = Counter ot,
                               IsValid = IsValid ot, IsOriginal = False\<rparr>],
        trace := trace s @ [Ev_lock (Mtx ot), Ev_counter (Counter ot) (n + 1), Ev_unlock (Mtx ot)]\<rparr>)"
  using assms cell_less[OF assms(2)] cell_less[OF assms(4)]
  by (simp add: MutexValidator_copy_def prim_defs cell_update cell_update_id
        held_by_acquired released_acquired)

lemma clear_old_shared:
  assumes "cell (mutexes s) (Mtx t) = Some d" "\<not> held_by_other (thread s) d"
    "cell (counters s) (Counter t) = Some n" "n \<noteq> 1"
  shows "clear_old t s = Done ()
     (s\<lparr>counters := (counters s)[Counter t := Some (n - 1)],
        trace := trace s @ [Ev_lock (Mtx t), Ev_counter (Counter t) (n - 1), Ev_unlock (Mtx t)]\<rparr>)"
  using assms cell_less[OF assms(1)] cell_less[OF assms(3)]
  by (simp add: clear_old_def prim_defs cell_update cell_update_id
        held_by_acquired released_acquired)

lemma clear_old_last:
  assumes "cell (mutexes s) (Mtx t) = Some d" "\<not> held_by_other (thread s) d"
    "cell (counters s) (Counter t) = Some 1" "cell (flags s) (IsValid t) = Some v"
  shows "clear_old t s = Done ()
     (s\<lparr>mutexes := (mutexes s)[Mtx t := None],
        counters := (counters s)[Counter t := None],
        flags := (flags s)[IsValid t := None],
        trace := trace s @ [Ev_lock (Mtx t), Ev_counter (Counter t) 0, Ev_delete_mutex (Mtx t),
                      Ev_delete_counter (Counter t), Ev_delete_flag (IsValid t),
                      Ev_unlock_deleted (Mtx t)]\<rparr>)"
  using assms cell_less[OF assms(1)] cell_less[OF assms(3)] cell_less[OF assms(4)]
  by (simp add: clear_old_def prim_defs cell_update cell_update_id)

lemma clear_old_blocked:
  assumes "cell (mutexes s) (Mtx t) = Some d" "held_by_other (thread s) d"
  shows "clear_old t s = Blocked (Mtx t) s"
  using assms by (simp add: clear_old_def mtx_lock_def)

lemma set_new_result:
  assumes "cell (objs s) other = Some ot" "cell (mutexes s) (Mtx ot) = Some d"
    "\<not> held_by_other (thread s) d" "cell (counters s) (Counter ot) = Some n"
  shows "set_new this other s = Done ()
     (s\<lparr>counters := (counters s)[Counter ot := Some (n + 1)],
        objs := (objs s)[this := Some \<lparr>Mtx = Mtx ot, Counter = Counter ot,
                               IsValid = IsValid ot, IsOriginal = False\<rparr>],
        trace := trace s @ [Ev_lock (Mtx ot), Ev_counter (Counter ot) (n + 1), Ev_unlock (Mtx ot)]\<rparr>)"
  using assms cell_less[OF assms(2)] cell_less[OF assms(4)]
  by (simp add: set_new_def prim_defs cell_update cell_update_id
        held_by_acquired released_acquired)

lemma destroy_shared:
  assumes "cell (objs s) this = Some t" "cell (mutexes s) (Mtx t) = Some d"
    "\<not> held_by_other (thread s) d"
    "cell (counters s) (Counter t) = Some n" "cell (flags s) (IsValid t) = Some v" "n \<noteq> 1"
  shows "destroy this s = Done ()
     (s\<lparr>flags := (if IsOriginal t then (flags s)[IsValid t := Some False] else flags s),
        counters := (counters s)[Counter t := Some (n - 1)],
        objs := (objs s)[this := None],
        trace := trace s @ Ev_lock (Mtx t) # (if IsOriginal t then [Ev_flag (IsValid t) False] else [])
                   @ [Ev_counter (Counter t) (n - 1), Ev_unlock (Mtx t)]\<rparr>)"
  using assms cell_less[OF assms(2)] cell_less[OF assms(4)] cell_less[OF assms(5)]
  by (simp add: destroy_def prim_defs cell_update cell_update_id
        held_by_acquired released_acquired)

lemma destroy_last:
  assumes "cell (objs s) this = Some t" "cell (mutexes s) (Mtx t) = Some d"
    "\<not> held_by_other (thread s) d"
    "cell (counters s) (Counter t) = Some 1" "cell (flags s) (IsValid t) = Some v"
  shows "destroy this s = Done ()
     (s\<lparr>mutexes := (mutexes s)[Mtx t := None],
        counters := (counters s)[Counter t := None],
        flags := (flags s)[IsValid t := None],
        objs := (objs s)[this := None],
        trace := trace s @ Ev_lock (Mtx t) # (if IsOriginal t then [Ev_flag (IsValid t) False] else [])
                   @ [Ev_counter (Counter t) 0, Ev_delete_mutex (Mtx t),
                      Ev_delete_counter (Counter t), Ev_delete_flag (IsValid t),
                      Ev_unlock_deleted (Mtx t)]\<rparr>)"
  using assms cell_less[OF assms(2)] cell_less[OF assms(4)] cell_less[OF assms(5)]
  by (simp add: destroy_def prim_defs cell_update cell_update_id)

lemma destroy_blocked:
  assumes "cell (objs s) this = Some t" "cell (mutexes s) (Mtx t) = Some d"
    "held_by_other (thread s) d"
  shows "destroy this s = Blocked (Mtx t) s"
  using assms by (simp add: destroy_def mtx_lock_def)

lemma copy_blocked:
  assumes "cell (objs s) other = Some ot" "cell (mutexes s) (Mtx ot) = Some d"
    "held_by_other (thread s) d"
  shows "MutexValidator_copy other s = Blocked (Mtx ot) s"
  using assms by (simp add: MutexValidator_copy_def mtx_lock_def)

lemma set_new_blocked:
  assumes "cell (objs s) other = Some ot" "cell (mutexes s) (Mtx ot) = Some d"
    "held_by_other (thread s) d"
  shows "set_new this other s = Blocked (Mtx ot) s"
  using assms by (simp add: set_new_def mtx_lock_def)

section \<open>The member functions keep the states consistent\<close>

lemma length_referrers_le: "length (referrers os b) \<le> length os"
  by (simp add: referrers_def) (metis diff_zero length_filter_le length_upt)

lemma consistent_obj:
  assumes "consistent s" "cell (objs s) h = Some t"
  shows "Mtx t = Counter t \<and> IsValid t = Counter t \<and>
         (\<exists>d n v. cell (mutexes s) (Counter t) = Some d \<and>
                  cell (counters s) (Counter t) = Some n \<and>
                  cell (flags s) (Counter t) = Some v \<and>
                  unat n = length (referrers (objs s) (Counter t))) \<and>
         h \<in> set (referrers (objs s) (Counter t))"
proof -
  from assms have p: "Mtx t = Counter t" "IsValid t = Counter t"
    by (simp_all add: consistent_iff)
  have mem: "h \<in> set (referrers (objs s) (Counter t))"
    using assms(2) refers_cell[of h "objs s" "Counter t"] by (simp add: mem_referrers)
  then have ne: "referrers (objs s) (Counter t) \<noteq> []" by auto
  with assms(1) obtain n where n: "cell (counters s) (Counter t) = Some n"
    unfolding consistent_iff by (cases "cell (counters s) (Counter t)") auto
  with assms(1) obtain d v where "cell (mutexes s) (Counter t) = Some d"
    "cell (flags s) (Counter t) = Some v" "unat n = length (referrers (objs s) (Counter t))"
    unfolding consistent_iff by blast
  with p n mem show ?thesis by simp
qed

lemma consistent_new:
  assumes "consistent s"
  shows "consistent (state_of (MutexValidator_new s))"
proof -
  let ?c = "length (counters s)"
  from assms have len: "length (mutexes s) = ?c" "length (flags s) = ?c"
    by (simp_all add: consistent_iff)
  have "cell (counters s) ?c = None" by (simp add: cell_def)
  with assms have fresh: "referrers (objs s) ?c = []" by (simp add: consistent_iff)
  show ?thesis
    using assms fresh len unfolding consistent_iff MutexValidator_new_def
    by (simp add: cell_append referrers_append refers_def less_Suc_eq) blast
qed

lemma unat_incr:
  fixes n :: size_t
  assumes "unat n < 2 ^ 64 - 1"
  shows "unat (n + 1) = unat n + 1"
  using assms by (simp add: unat_word_ariths)

lemma unat_decr:
  fixes n :: size_t
  assumes "0 < unat n"
  shows "unat (n - 1) = unat n - 1"
  using assms by (metis unat_minus_one unat_0 less_numeral_extra(3))

lemma consistent_copy:
  assumes "consistent s" "length (objs s) < 2 ^ 64 - 1"
    "MutexValidator_copy other s = Done a s'"
  shows "consistent s'"
proof -
  from assms(3) obtain ot where ot: "cell (objs s) other = Some ot"
    by (cases "cell (objs s) other") (simp_all add: MutexValidator_copy_def)
  from consistent_obj[OF assms(1) ot] obtain d n v where
    p: "Mtx ot = Counter ot" "IsValid ot = Counter ot" and
    c: "cell (mutexes s) (Counter ot) = Some d" "cell (counters s) (Counter ot) = Some n"
       "cell (flags s) (Counter ot) = Some v" "unat n = length (referrers (objs s) (Counter ot))"
    by blast
  have "unat n \<le> length (objs s)" using c(4) length_referrers_le by simp
  with assms(2) have inc: "unat (n + 1) = unat n + 1" by (intro unat_incr) simp
  from c(1) p(1) have m: "cell (mutexes s) (Mtx ot) = Some d" by simp
  have av: "\<not> held_by_other (thread s) d"
    using copy_blocked[OF ot m] assms(3) by auto
  have s': "s' = s\<lparr>counters := (counters s)[Counter ot := Some (n + 1)],
        objs := objs s @ [Some \<lparr>Mtx = Mtx ot, Counter = Counter ot,
                               IsValid = IsValid ot, IsOriginal = False\<rparr>],
        trace := trace s @ [Ev_lock (Mtx ot), Ev_counter (Counter ot) (n + 1), Ev_unlock (Mtx ot)]\<rparr>"
    using assms(3) copy_result[OF ot m av c(2)] by simp
  show ?thesis
    using assms(1) p c inc cell_less[OF c(2)] unfolding consistent_iff s'
    by (simp add: cell_append cell_update referrers_append refers_def)
qed

lemma consistent_destroy:
  assumes "consistent s" "destroy this s = Done a s'"
  shows "consistent s'"
proof -
  from assms(2) obtain t where t: "cell (objs s) this = Some t"
    by (cases "cell (objs s) this") (simp_all add: destroy_def)
  from consistent_obj[OF assms(1) t] obtain d n v where
    p: "Mtx t = Counter t" "IsValid t = Counter t" and
    c: "cell (mutexes s) (Counter t) = Some d" "cell (counters s) (Counter t) = Some n"
       "cell (flags s) (Counter t) = Some v" "unat n = length (referrers (objs s) (Counter t))" and
    mem: "this \<in> set (referrers (objs s) (Counter t))"
    by blast
  from c(1) c(3) p have m: "cell (mutexes s) (Mtx t) = Some d" "cell (flags s) (IsValid t) = Some v"
    by simp_all
  have av: "\<not> held_by_other (thread s) d"
    using destroy_blocked[OF t m(1)] assms(2) by auto
  have lt: "this < length (objs s)" using t by (rule cell_less)
  have r: "refers (objs s ! this) b \<longleftrightarrow> b = Counter t" for b
    using cell_nth[OF t] by (auto simp: refers_def)
  have len: "length (referrers ((objs s)[this := None]) b) + (if b = Counter t then 1 else 0) =
      length (referrers (objs s) b)" for b
    using length_referrers_update[OF lt, of None b] cell_nth[OF t] by (auto simp: refers_def)
  have pos: "0 < unat n" using mem c(4) by (cases "referrers (objs s) (Counter t)") auto
  have dec: "unat (n - 1) = unat n - 1" using pos by (rule unat_decr)
  have len_c: "length (referrers ((objs s)[this := None]) (Counter t)) = unat n - 1"
    using len[of "Counter t"] c(4) by simp
  have len_o: "b \<noteq> Counter t \<Longrightarrow> referrers ((objs s)[this := None]) b = referrers (objs s) b" for b
    using lt r[of b] by (auto simp: referrers_def nth_list_update refers_def intro!: filter_cong)
  have ex: "Ex Not" by blast
  show ?thesis
  proof (cases "n = 1")
    case True
    with c(2) have c1: "cell (counters s) (Counter t) = Some 1" by simp
    have s': "s' = s\<lparr>mutexes := (mutexes s)[Mtx t := None],
        counters := (counters s)[Counter t := None],
        flags := (flags s)[IsValid t := None],
        objs := (objs s)[this := None],
        trace := trace s @ Ev_lock (Mtx t) # (if IsOriginal t then [Ev_flag (IsValid t) False] else [])
                   @ [Ev_counter (Counter t) 0, Ev_delete_mutex (Mtx t),
                      Ev_delete_counter (Counter t), Ev_delete_flag (IsValid t),
                      Ev_unlock_deleted (Mtx t)]\<rparr>"
      using assms(2) destroy_last[OF t m(1) av c1 m(2)] by simp
    from True len_c have gone: "referrers ((objs s)[this := None]) (Counter t) = []" by simp
    show ?thesis
      using assms(1) p c gone len_o cell_less[OF c(1)] cell_less[OF c(2)] cell_less[OF c(3)]
      unfolding consistent_iff s'
      by (simp add: cell_update)
  next
    case False
    have s': "s' = s\<lparr>flags := (if IsOriginal t then (flags s)[IsValid t := Some False] else flags s),
        counters := (counters s)[Counter t := Some (n - 1)],
        objs := (objs s)[this := None],
        trace := trace s @ Ev_lock (Mtx t) # (if IsOriginal t then [Ev_flag (IsValid t) False] else [])
                   @ [Ev_counter (Counter t) (n - 1), Ev_unlock (Mtx t)]\<rparr>"
      using assms(2) destroy_shared[OF t m(1) av c(2) m(2) False] by simp
    show ?thesis
      using assms(1) p c dec len_c len_o cell_less[OF c(2)] cell_less[OF c(3)]
      unfolding consistent_iff s'
      by (simp add: cell_update ex)
  qed
qed

lemma consistent_assign:
  assumes "consistent s" "length (objs s) < 2 ^ 64 - 1" "assign this other s = Done a s'"
  shows "consistent s'"
proof (cases "this = other")
  case True
  with assms show ?thesis by (simp add: assign_def)
next
  case False
  from assms(3) False obtain t where t: "cell (objs s) this = Some t"
    by (cases "cell (objs s) this") (simp_all add: assign_def)
  from consistent_obj[OF assms(1) t] obtain d n v where
    p: "Mtx t = Counter t" "IsValid t = Counter t" and
    c: "cell (mutexes s) (Counter t) = Some d" "cell (counters s) (Counter t) = Some n"
       "cell (flags s) (Counter t) = Some v" "unat n = length (referrers (objs s) (Counter t))" and
    mem: "this \<in> set (referrers (objs s) (Counter t))"
    by blast
  from c(1) c(3) p have m: "cell (mutexes s) (Mtx t) = Some d" "cell (flags s) (IsValid t) = Some v"
    by simp_all
  have av: "\<not> held_by_other (thread s) d"
    using clear_old_blocked[OF m(1)] assms(3) False t by (auto simp: assign_def)
  let ?dead = "n = 1"
  let ?s1 = "if ?dead
    then s\<lparr>mutexes := (mutexes s)[Mtx t := None],
        counters := (counters s)[Counter t := None],
        flags := (flags s)[IsValid t := None],
        trace := trace s @ [Ev_lock (Mtx t), Ev_counter (Counter t) 0, Ev_delete_mutex (Mtx t),
                      Ev_delete_counter (Counter t), Ev_delete_flag (IsValid t),
                      Ev_unlock_deleted (Mtx t)]\<rparr>
    else s\<lparr>counters := (counters s)[Counter t := Some (n - 1)],
        trace := trace s @ [Ev_lock (Mtx t), Ev_counter (Counter t) (n - 1), Ev_unlock (Mtx t)]\<rparr>"
  have co: "clear_old t s = Done () ?s1"
    using clear_old_shared[OF m(1) av c(2)] clear_old_last[OF m(1) av _ m(2)] c(2) by simp
  have a1: "set_new this other ?s1 = Done a s'"
    using assms(3) False t co by (simp add: assign_def)
  have os1: "objs ?s1 = objs s" "thread ?s1 = thread s" by simp_all
  from a1 have "cell (objs s) other \<noteq> None"
    by (cases "n = 1") (auto simp: set_new_def split: option.splits)
  then obtain ot where ot: "cell (objs s) other = Some ot" by blast
  from consistent_obj[OF assms(1) ot] obtain d2 n2 v2 where
    p2: "Mtx ot = Counter ot" "IsValid ot = Counter ot" and
    c2: "cell (mutexes s) (Counter ot) = Some d2" "cell (counters s) (Counter ot) = Some n2"
       "cell (flags s) (Counter ot) = Some v2"
       "unat n2 = length (referrers (objs s) (Counter ot))" and
    mem2: "other \<in> set (referrers (objs s) (Counter ot))"
    by blast
  have apart: "Counter ot \<noteq> Counter t" if "?dead"
  proof
    assume eq: "Counter ot = Counter t"
    have "card {this, other} \<le> card (set (referrers (objs s) (Counter t)))"
      using mem mem2 eq by (intro card_mono) simp_all
    then have "2 \<le> unat n" using False c(4) by (simp add: length_referrers)
    with that show False by simp
  qed
  let ?n2 = "if Counter ot = Counter t then n - 1 else n2"
  have o1: "cell (objs ?s1) other = Some ot" using ot by simp
  have m1: "cell (mutexes ?s1) (Mtx ot) = Some d2"
    using c2(1) p2 p apart by (simp add: cell_update)
  have k1: "cell (counters ?s1) (Counter ot) = Some ?n2"
    using c2(2) c(2) cell_less[OF c(2)] apart by (simp add: cell_update)
  have av2: "\<not> held_by_other (thread ?s1) d2"
    using set_new_blocked[OF o1 m1] a1 by auto
  let ?x = "Some \<lparr>Mtx = Mtx ot, Counter = Counter ot, IsValid = IsValid ot, IsOriginal = False\<rparr>"
  have s': "s' = ?s1\<lparr>counters := (counters ?s1)[Counter ot := Some (?n2 + 1)],
        objs := (objs ?s1)[this := ?x],
        trace := trace ?s1 @ [Ev_lock (Mtx ot), Ev_counter (Counter ot) (?n2 + 1), Ev_unlock (Mtx ot)]\<rparr>"
    using a1 set_new_result[OF o1 m1 av2 k1] by simp
  have lt: "this < length (objs s)" using t by (rule cell_less)
  have len: "length (referrers ((objs s)[this := ?x]) b) + (if b = Counter t then 1 else 0) =
      length (referrers (objs s) b) + (if b = Counter ot then 1 else 0)" for b
    using length_referrers_update[OF lt, of ?x b] cell_nth[OF t] by (auto simp: refers_def)
  have pos: "0 < unat n" using mem c(4) by (cases "referrers (objs s) (Counter t)") auto
  have dec: "unat (n - 1) = unat n - 1" using pos by (rule unat_decr)
  have "unat n2 \<le> length (objs s)" using c2(4) length_referrers_le by simp
  with assms(2) have inc: "unat (n2 + 1) = unat n2 + 1" by (intro unat_incr) simp
  have cnt: "unat n' = length (referrers ((objs s)[this := ?x]) b)"
    if "cell (counters s') b = Some n'" for b n'
  proof (cases "b = Counter ot")
    case True
    show ?thesis
    proof (cases "Counter ot = Counter t")
      case same_block: True
      with apart have "\<not> ?dead" by blast
      with True same_block that have "n' = n" using cell_less[OF c(2)] by (simp add: s' cell_update)
      with len[of b] True same_block c(4) show ?thesis by simp
    next
      case other_block: False
      with True that have "n' = n2 + 1"
        using cell_less[OF c(2)] cell_less[OF c2(2)] by (simp add: s' cell_update split: if_splits)
      with len[of b] True other_block c2(4) inc show ?thesis by simp
    qed
  next
    case False
    show ?thesis
    proof (cases "b = Counter t")
      case True
      with False that have "n' = n - 1"
        using cell_less[OF c(2)] cell_less[OF c2(2)] by (simp add: s' cell_update split: if_splits)
      with len[of b] True False c(4) dec pos show ?thesis by simp
    next
      case nb: False
      with False that have "cell (counters s) b = Some n'"
        by (simp add: s' cell_update split: if_splits)
      with assms(1) have "unat n' = length (referrers (objs s) b)" by (simp add: consistent_iff)
      with len[of b] False nb show ?thesis by simp
    qed
  qed
  have none: "cell (mutexes s') b = None \<and> cell (flags s') b = None \<and>
      referrers ((objs s)[this := ?x]) b = []" if "cell (counters s') b = None" for b
  proof (cases "b = Counter t")
    case True
    with that have dead: "?dead"
      using cell_less[OF c(2)] by (auto simp: s' cell_update split: if_splits)
    with apart have ne: "Counter ot \<noteq> Counter t" by blast
    from dead c(4) have "length (referrers (objs s) (Counter t)) = 1" by simp
    with len[of b] True ne have "referrers ((objs s)[this := ?x]) b = []" by simp
    moreover have "cell (mutexes s') b = None" "cell (flags s') b = None"
      using True dead p cell_less[OF c(1)] cell_less[OF c(3)] by (simp_all add: s' cell_update)
    ultimately show ?thesis by simp
  next
    case False
    with that have k: "cell (counters s) b = None" and nb: "b \<noteq> Counter ot"
      using c2(2) by (auto simp: s' cell_update split: if_splits)
    with assms(1) have "cell (mutexes s) b = None" "cell (flags s) b = None"
      "referrers (objs s) b = []"
      by (simp_all add: consistent_iff)
    with len[of b] False nb p show ?thesis by (simp add: s' cell_update)
  qed
  have some: "cell (mutexes s') b \<noteq> None \<and> cell (flags s') b \<noteq> None"
    if "cell (counters s') b = Some n'" for b n'
  proof (cases "b = Counter t \<and> ?dead")
    case True
    with apart have "Counter ot \<noteq> Counter t" by blast
    with True that show ?thesis using cell_less[OF c(2)] by (simp add: s' cell_update)
  next
    case False
    from that have "cell (counters s) b \<noteq> None"
      using c(2) c2(2) by (auto simp: s' cell_update split: if_splits)
    with assms(1) have "cell (mutexes s) b \<noteq> None" "cell (flags s) b \<noteq> None"
      by (auto simp: consistent_iff)
    with False p show ?thesis by (auto simp: s' cell_update)
  qed
  have ob: "Mtx u = Counter u \<and> IsValid u = Counter u \<and> Counter u < length (counters s)"
    if "cell ((objs s)[this := ?x]) h = Some u" for h u
  proof (cases "h = this")
    case True
    with that lt have "u = \<lparr>Mtx = Mtx ot, Counter = Counter ot, IsValid = IsValid ot, IsOriginal = False\<rparr>"
      by (simp add: cell_update)
    with p2 cell_less[OF c2(2)] show ?thesis by simp
  next
    case False
    with that have "cell (objs s) h = Some u" by (simp add: cell_update)
    with assms(1) show ?thesis by (simp add: consistent_iff)
  qed
  have o': "objs s' = (objs s)[this := ?x]"
    "length (counters s') = length (counters s)" "length (mutexes s') = length (mutexes s)"
    "length (flags s') = length (flags s)"
    by (simp_all add: s')
  have lens: "length (mutexes s) = length (counters s)" "length (flags s) = length (counters s)"
    using assms(1) by (simp_all add: consistent_iff)
  show ?thesis
    unfolding consistent_iff[of s'] o' lens
    using cnt none some ob by blast
qed

lemma consistent_mutexes_update:
  assumes "consistent s" "cell (mutexes s) m = Some d"
  shows "consistent (s\<lparr>mutexes := (mutexes s)[m := Some d'], trace := tr\<rparr>)"
proof -
  from assms obtain n where "cell (counters s) m = Some n"
    unfolding consistent_iff by (cases "cell (counters s) m") auto
  then show ?thesis
    using assms cell_less[OF assms(2)] unfolding consistent_iff
    by (simp add: cell_update) blast
qed

lemma consistent_trace: "consistent s \<Longrightarrow> consistent (s\<lparr>trace := tr\<rparr>)"
  by (simp add: consistent_iff)

lemma consistent_Lock:
  assumes "consistent s" "Lock this s = Done a s'"
  shows "consistent s'"
  using assms consistent_mutexes_update[OF assms(1)]
  by (auto simp: Lock_def mtx_lock_def emit_def split: option.splits if_splits)

lemma consistent_TryLock:
  assumes "consistent s" "TryLock this s = Done a s'"
  shows "consistent s'"
  using assms consistent_mutexes_update[OF assms(1)]
  by (auto simp: TryLock_def mtx_try_lock_def emit_def split: option.splits if_splits)

lemma consistent_Unlock:
  assumes "consistent s" "Unlock this s = Done a s'"
  shows "consistent s'"
  using assms consistent_mutexes_update[OF assms(1)] consistent_trace[OF assms(1)]
  by (auto simp: Unlock_def mtx_unlock_def emit_def split: option.splits if_splits)

lemma consistent_GetIsValid:
  assumes "consistent s" "GetIsValid this s = Done a s'"
  shows "consistent s'"
  using assms by (auto simp: GetIsValid_def load_flag_def split: option.splits)

lemma then_do_Done:
  "then_do r f = Done a s' \<longleftrightarrow> (\<exists>x s1. r = Done x s1 \<and> f x s1 = Done a s')"
  by (cases r) simp_all

lemma consistent_perform:
  assumes "consistent s" "length (objs s) < 2 ^ 64 - 1" "perform a s = Done x s'"
  shows "consistent s'"
proof (cases a)
  case New
  with assms show ?thesis
    using consistent_new[OF assms(1)] by (auto simp: MutexValidator_new_def)
next
  case (Copy other)
  with assms show ?thesis by (auto simp: then_do_Done dest: consistent_copy)
next
  case (Assign this other)
  with assms show ?thesis by (auto dest: consistent_assign)
next
  case (Destroy this)
  with assms show ?thesis by (auto dest: consistent_destroy)
next
  case (Call_Lock this)
  with assms show ?thesis by (auto dest: consistent_Lock)
next
  case (Call_TryLock this)
  with assms show ?thesis by (auto simp: then_do_Done dest: consistent_TryLock)
next
  case (Call_Unlock this)
  with assms show ?thesis by (auto dest: consistent_Unlock)
next
  case (Call_GetIsValid this)
  with assms show ?thesis by (auto simp: then_do_Done dest: consistent_GetIsValid)
next
  case (Switch th)
  with assms show ?thesis by (auto simp: consistent_iff)
qed

lemma objs_mtx_lock: "mtx_lock m s = Done a s' \<Longrightarrow> objs s' = objs s"
  by (auto simp: mtx_lock_def emit_def split: option.splits if_splits)

lemma objs_mtx_try_lock: "mtx_try_lock m s = Done a s' \<Longrightarrow> objs s' = objs s"
  by (auto simp: mtx_try_lock_def emit_def split: option.splits if_splits)

lemma objs_mtx_unlock: "mtx_unlock m s = Done a s' \<Longrightarrow> objs s' = objs s"
  by (auto simp: mtx_unlock_def emit_def split: option.splits if_splits)

lemma objs_incr_counter: "incr_counter c s = Done a s' \<Longrightarrow> objs s' = objs s"
  by (auto simp: incr_counter_def load_counter_def store_counter_def emit_def split: option.splits)

lemma objs_decr_counter: "decr_counter c s = Done a s' \<Longrightarrow> objs s' = objs s"
  by (auto simp: decr_counter_def load_counter_def store_counter_def emit_def split: option.splits)

lemma objs_load_counter: "load_counter c s = Done a s' \<Longrightarrow> s' = s"
  by (auto simp: load_counter_def split: option.splits)

lemma objs_store_flag: "store_flag c b s = Done a s' \<Longrightarrow> objs s' = objs s"
  by (auto simp: store_flag_def emit_def split: option.splits)

lemma objs_delete_block: "delete_block t s = Done a s' \<Longrightarrow> objs s' = objs s"
  by (auto simp: delete_block_def delete_mutex_def delete_counter_def delete_flag_def emit_def
       then_do_Done split: option.splits)

lemma length_objs_perform:
  assumes "perform a s = Done x s'"
  shows "length (objs s') \<le> Suc (length (objs s))"
proof (cases a)
  case New
  with assms show ?thesis by (auto simp: MutexValidator_new_def)
next
  case (Copy other)
  with assms show ?thesis
    by (auto simp: MutexValidator_copy_def then_do_Done split: option.splits
          dest!: objs_mtx_lock objs_mtx_unlock objs_incr_counter)
next
  case (Assign this other)
  with assms show ?thesis
    by (auto simp: assign_def clear_old_def set_new_def then_do_Done split: option.splits if_splits
          dest!: objs_mtx_lock objs_mtx_unlock objs_incr_counter objs_decr_counter
                 objs_load_counter objs_delete_block)
next
  case (Destroy this)
  with assms show ?thesis
    by (auto simp: destroy_def then_do_Done split: option.splits if_splits
          dest!: objs_mtx_lock objs_mtx_unlock objs_decr_counter objs_store_flag
                 objs_load_counter objs_delete_block)
next
  case (Call_Lock this)
  with assms show ?thesis by (auto simp: Lock_def split: option.splits dest!: objs_mtx_lock)
next
  case (Call_TryLock this)
  with assms show ?thesis
    by (auto simp: TryLock_def then_do_Done split: option.splits dest!: objs_mtx_try_lock)
next
  case (Call_Unlock this)
  with assms show ?thesis by (auto simp: Unlock_def split: option.splits dest!: objs_mtx_unlock)
next
  case (Call_GetIsValid this)
  with assms show ?thesis
    by (auto simp: GetIsValid_def load_flag_def then_do_Done split: option.splits)
next
  case (Switch th)
  with assms show ?thesis by auto
qed

lemma consistent_run:
  assumes "consistent s" "length (objs s) + length as < 2 ^ 64" "run as s = Done x s'"
  shows "consistent s'"
  using assms
proof (induction as arbitrary: s)
  case Nil
  then show ?case by simp
next
  case (Cons a as)
  from Cons.prems(3) obtain y s1 where
    st: "perform a s = Done y s1" and rest: "run as s1 = Done x s'"
    by (auto simp: then_do_Done)
  from Cons.prems(2) have "length (objs s) < 2 ^ 64 - 1" by simp
  from consistent_perform[OF Cons.prems(1) this st] have c1: "consistent s1" .
  from length_objs_perform[OF st] Cons.prems(2) have "length (objs s1) + length as < 2 ^ 64"
    by simp
  from Cons.IH[OF c1 this rest] show ?case .
qed

lemma consistent_start: "consistent start"
  by (simp add: consistent_def start_def)

section \<open>Destroying every handle of a block\<close>

lemma run_append: "run (as @ bs) s = then_do (run as s) (\<lambda>_. run bs)"
proof (induction as arbitrary: s)
  case Nil
  then show ?case by simp
next
  case (Cons a as)
  then show ?case by (cases "perform a s") simp_all
qed

lemma stores_append: "stores c (es @ fs) = stores c es @ stores c fs"
  by (induction c es rule: stores.induct) simp_all

lemma frees_append: "frees b (es @ fs) = frees b es @ frees b fs"
  by (simp add: frees_def)

lemma destroy_all:
  assumes "consistent s" "hs \<noteq> []" "distinct hs" "set hs = set (referrers (objs s) b)"
    "cell (mutexes s) b = Some d" "\<not> held_by_other (thread s) d"
  shows "\<exists>s' tr. run (map Destroy hs) s = Done () s' \<and>
           cell (mutexes s') b = None \<and> cell (counters s') b = None \<and> cell (flags s') b = None \<and>
           trace s' = trace s @ tr \<and>
           frees b tr = [Ev_delete_mutex b, Ev_delete_counter b, Ev_delete_flag b] \<and>
           map unat (stores b tr) = rev [0..<length hs]"
  using assms
proof (induction hs arbitrary: s)
  case Nil
  then show ?case by simp
next
  case (Cons h hs)
  have "h \<in> set (referrers (objs s) b)" using Cons.prems(4) by auto
  then obtain t where t: "cell (objs s) h = Some t" and b: "Counter t = b"
    using refers_cell[of h "objs s" b] by (auto simp: mem_referrers)
  from consistent_obj[OF Cons.prems(1) t] b obtain n v where
    p: "Mtx t = b" "IsValid t = b" and
    c: "cell (counters s) b = Some n"
       "cell (flags s) b = Some v" "unat n = length (referrers (objs s) b)"
    by auto
  have m: "cell (mutexes s) (Mtx t) = Some d" "cell (flags s) (IsValid t) = Some v"
    "cell (counters s) (Counter t) = Some n"
    using c p b Cons.prems(5) by simp_all
  note av = Cons.prems(6)
  have "length (referrers (objs s) b) = card (set (referrers (objs s) b))"
    by (rule length_referrers)
  also have "\<dots> = length (h # hs)"
    using Cons.prems(3,4) distinct_card[of "h # hs"] by simp
  finally have n: "unat n = Suc (length hs)" using c(3) by simp
  let ?pre = "Ev_lock b # (if IsOriginal t then [Ev_flag b False] else [])"
  show ?case
  proof (cases "hs = []")
    case True
    with n have "unat n = 1" by simp
    then have "n = 1" by (simp add: word_unat_eq_iff)
    with m have m3: "cell (counters s) (Counter t) = Some 1" by simp
    let ?tr = "?pre @ [Ev_counter b 0, Ev_delete_mutex b, Ev_delete_counter b, Ev_delete_flag b,
                 Ev_unlock_deleted b]"
    have "run (map Destroy (h # hs)) s = Done ()
       (s\<lparr>mutexes := (mutexes s)[b := None], counters := (counters s)[b := None],
          flags := (flags s)[b := None], objs := (objs s)[h := None],
          trace := trace s @ ?tr\<rparr>)"
      using True destroy_last[OF t m(1) av m3 m(2)] p b by simp
    moreover have "frees b ?tr = [Ev_delete_mutex b, Ev_delete_counter b, Ev_delete_flag b]"
      by (simp add: frees_def)
    moreover have "map unat (stores b ?tr) = rev [0..<length (h # hs)]"
      using True by (simp add: stores_append)
    ultimately show ?thesis
      using cell_less[OF Cons.prems(5)] cell_less[OF c(1)] cell_less[OF c(2)]
      by (simp add: cell_update)
  next
    case False
    then have "1 < unat n" using n by (cases hs) simp_all
    then have n1: "n \<noteq> 1" by auto
    let ?tr = "?pre @ [Ev_counter b (n - 1), Ev_unlock b]"
    let ?s1 = "s\<lparr>flags := (if IsOriginal t then (flags s)[b := Some False] else flags s),
        counters := (counters s)[b := Some (n - 1)],
        objs := (objs s)[h := None],
        trace := trace s @ ?tr\<rparr>"
    have d1: "destroy h s = Done () ?s1"
      using destroy_shared[OF t m(1) av m(3) m(2) n1] p b by simp
    have c1: "consistent ?s1" using consistent_destroy[OF Cons.prems(1) d1] .
    have "set (referrers (objs ?s1) b) = set (referrers (objs s) b) - {h}"
      using set_referrers_update[OF cell_less[OF t], of None b] by (simp add: refers_def)
    also have "\<dots> = set hs" using Cons.prems(3,4) by auto
    finally have r1: "set hs = set (referrers (objs ?s1) b)" by simp
    from Cons.prems(3) have dh: "distinct hs" by simp
    have m1: "cell (mutexes ?s1) b = Some d" using Cons.prems(5) by simp
    have av1: "\<not> held_by_other (thread ?s1) d" using av by simp
    from Cons.IH[OF c1 False dh r1 m1 av1] obtain s' tr where
      ih: "run (map Destroy hs) ?s1 = Done () s'"
        "cell (mutexes s') b = None" "cell (counters s') b = None" "cell (flags s') b = None"
        "trace s' = trace ?s1 @ tr"
        "frees b tr = [Ev_delete_mutex b, Ev_delete_counter b, Ev_delete_flag b]"
        "map unat (stores b tr) = rev [0..<length hs]"
      by blast
    have dec: "unat (n - 1) = length hs" using n unat_decr[of n] by simp
    have "run (map Destroy (h # hs)) s = Done () s'"
      using d1 ih(1) by simp
    moreover have "trace s' = trace s @ (?tr @ tr)" using ih(5) by simp
    moreover have "frees b (?tr @ tr) = [Ev_delete_mutex b, Ev_delete_counter b, Ev_delete_flag b]"
      using ih(6) by (simp add: frees_append) (simp add: frees_def)
    moreover have "map unat (stores b (?tr @ tr)) = rev [0..<length (h # hs)]"
      using ih(7) dec by (simp add: stores_append)
    ultimately show ?thesis using ih(2,3,4) by blast
  qed
qed

lemma referrers_append_replicate:
  assumes "refers x b"
  shows "referrers (os @ replicate k x) b = referrers os b @ [length os ..< length os + k]"
proof (induction k)
  case 0
  then show ?case by simp
next
  case (Suc k)
  have "os @ replicate (Suc k) x = (os @ replicate k x) @ [x]"
    by (simp add: replicate_append_same)
  then show ?case using Suc assms by (simp only: referrers_append) simp
qed

lemma run_copies:
  assumes "consistent s" "cell (objs s) h = Some t" "length (objs s) + k < 2 ^ 64"
    "cell (mutexes s) (Mtx t) = Some d" "\<not> held_by_other (thread s) d"
  shows "\<exists>s' tr. run (replicate k (Copy h)) s = Done () s' \<and> consistent s' \<and>
           objs s' = objs s @ replicate k
             (Some \<lparr>Mtx = Mtx t, Counter = Counter t, IsValid = IsValid t, IsOriginal = False\<rparr>) \<and>
           mutexes s' = mutexes s \<and> thread s' = thread s \<and>
           trace s' = trace s @ tr \<and> frees (Counter t) tr = [] \<and>
           map unat (stores (Counter t) tr) =
             [Suc (length (referrers (objs s) (Counter t))) ..<
              Suc (length (referrers (objs s) (Counter t))) + k]"
  using assms
proof (induction k arbitrary: s)
  case 0
  then show ?case by (simp add: frees_def)
next
  case (Suc k)
  let ?b = "Counter t"
  let ?x = "Some \<lparr>Mtx = Mtx t, Counter = Counter t, IsValid = IsValid t, IsOriginal = False\<rparr>"
  from consistent_obj[OF Suc.prems(1,2)] obtain n v where
    p: "Mtx t = ?b" "IsValid t = ?b" and
    c: "cell (counters s) ?b = Some n"
       "cell (flags s) ?b = Some v" "unat n = length (referrers (objs s) ?b)"
    by blast
  note m = Suc.prems(4) and av = Suc.prems(5)
  let ?tr = "[Ev_lock (Mtx t), Ev_counter ?b (n + 1), Ev_unlock (Mtx t)]"
  let ?s1 = "s\<lparr>counters := (counters s)[?b := Some (n + 1)],
        objs := objs s @ [?x], trace := trace s @ ?tr\<rparr>"
  have cp: "MutexValidator_copy h s = Done (length (objs s)) ?s1"
    using copy_result[OF Suc.prems(2) m av c(1)] .
  from Suc.prems(3) have "length (objs s) < 2 ^ 64 - 1" by simp
  from consistent_copy[OF Suc.prems(1) this cp] have c1: "consistent ?s1" .
  have h1: "cell (objs ?s1) h = Some t"
    using Suc.prems(2) cell_less[OF Suc.prems(2)] by (simp add: cell_append)
  have l1: "length (objs ?s1) + k < 2 ^ 64" using Suc.prems(3) by simp
  have m1: "cell (mutexes ?s1) (Mtx t) = Some d" using m by simp
  have av1: "\<not> held_by_other (thread ?s1) d" using av by simp
  from Suc.IH[OF c1 h1 l1 m1 av1] obtain s' tr where
    ih: "run (replicate k (Copy h)) ?s1 = Done () s'" "consistent s'"
      "objs s' = objs ?s1 @ replicate k ?x" "mutexes s' = mutexes ?s1" "thread s' = thread ?s1"
      "trace s' = trace ?s1 @ tr" "frees ?b tr = []"
      "map unat (stores ?b tr) =
         [Suc (length (referrers (objs ?s1) ?b)) ..< Suc (length (referrers (objs ?s1) ?b)) + k]"
    by blast
  have r1: "length (referrers (objs ?s1) ?b) = Suc (length (referrers (objs s) ?b))"
    by (simp add: referrers_append refers_def)
  have "unat n \<le> length (objs s)" using c(3) length_referrers_le by simp
  with Suc.prems(3) have inc: "unat (n + 1) = Suc (length (referrers (objs s) ?b))"
    using unat_incr[of n] c(3) by simp
  have "run (replicate (Suc k) (Copy h)) s = Done () s'"
    using cp ih(1) by simp
  moreover have "objs s' = objs s @ replicate (Suc k) ?x"
    using ih(3) by simp
  moreover have "mutexes s' = mutexes s" "thread s' = thread s" using ih(4,5) by simp_all
  moreover have "trace s' = trace s @ (?tr @ tr)" using ih(6) by simp
  moreover have "frees ?b (?tr @ tr) = []" using ih(7) by (simp add: frees_def)
  moreover have "map unat (stores ?b (?tr @ tr)) =
      [Suc (length (referrers (objs s) ?b)) ..< Suc (length (referrers (objs s) ?b)) + Suc k]"
    using ih(8) r1 inc by (simp add: stores_append upt_conv_Cons)
  ultimately show ?case using ih(2) by blast
qed

lemma new_then_copies_then_destroy:
  assumes "consistent s" "length (objs s) + N + 1 < 2 ^ 64" "distinct hs"
    "set hs = {length (objs s) ..< length (objs s) + N + 1}"
  shows "\<exists>s'. run (New # replicate N (Copy (length (objs s))) @ map Destroy hs) s = Done () s' \<and>
           cell (mutexes s') (length (counters s)) = None \<and>
           cell (counters s') (length (counters s)) = None \<and>
           cell (flags s') (length (counters s)) = None \<and>
           frees (length (counters s)) (events_since s s') =
             [Ev_delete_mutex (length (counters s)), Ev_delete_counter (length (counters s)),
              Ev_delete_flag (length (counters s))] \<and>
           map unat (stores (length (counters s)) (events_since s s')) =
             [2..<N + 2] @ rev [0..<N + 1]"
proof -
  let ?h = "length (objs s)" and ?b = "length (counters s)"
  from assms(1) have lm: "length (mutexes s) = ?b" by (simp add: consistent_iff)
  let ?t = "\<lparr>Mtx = length (mutexes s), Counter = ?b, IsValid = length (flags s), IsOriginal = True\<rparr>"
  let ?s1 = "s\<lparr>mutexes := mutexes s @ [Some Free], counters := counters s @ [Some 1],
          flags := flags s @ [Some True], objs := objs s @ [Some ?t]\<rparr>"
  have new: "MutexValidator_new s = Done ?h ?s1" by (simp add: MutexValidator_new_def)
  have c1: "consistent ?s1" using consistent_new[OF assms(1)] new by simp
  have "cell (counters s) ?b = None" by (simp add: cell_def)
  with assms(1) have fresh: "referrers (objs s) ?b = []" by (simp add: consistent_iff)
  have t1: "cell (objs ?s1) ?h = Some ?t" by (simp add: cell_append)
  have r1: "referrers (objs ?s1) ?b = [?h]"
    using fresh by (simp add: referrers_append refers_def)
  have l1: "length (objs ?s1) + N < 2 ^ 64" using assms(2) by simp
  have m1: "cell (mutexes ?s1) (Mtx ?t) = Some Free" by (simp add: cell_append)
  have av1: "\<not> held_by_other (thread ?s1) Free" by (simp add: held_by_other_def)
  let ?x = "Some \<lparr>Mtx = Mtx ?t, Counter = Counter ?t, IsValid = IsValid ?t, IsOriginal = False\<rparr>"
  from run_copies[OF c1 t1 l1 m1 av1] obtain s2 tr2 where
    cp: "run (replicate N (Copy ?h)) ?s1 = Done () s2" "consistent s2"
      "objs s2 = objs ?s1 @ replicate N ?x" "mutexes s2 = mutexes ?s1" "thread s2 = thread ?s1"
      "trace s2 = trace ?s1 @ tr2"
      "frees (Counter ?t) tr2 = []"
      "map unat (stores (Counter ?t) tr2) =
         [Suc (length (referrers (objs ?s1) (Counter ?t))) ..<
          Suc (length (referrers (objs ?s1) (Counter ?t))) + N]"
    by blast
  have cp5: "frees ?b tr2 = []" using cp(7) by simp
  have "Suc (length (referrers (objs ?s1) (Counter ?t))) = 2"
    using r1 by simp
  with cp(8) have "map unat (stores (Counter ?t) tr2) = [2 ..< 2 + N]"
    by (simp only:)
  then have cp6: "map unat (stores ?b tr2) = [2 ..< 2 + N]" by simp
  have "referrers (objs s2) ?b = [?h] @ [Suc ?h ..< Suc ?h + N]"
    unfolding cp(3) using referrers_append_replicate[of ?x ?b "objs ?s1" N] r1
    by (simp add: refers_def)
  then have "set (referrers (objs s2) ?b) = {?h ..< ?h + N + 1}" by auto
  with assms(4) have r2: "set hs = set (referrers (objs s2) ?b)" by simp
  have ne: "hs \<noteq> []" using assms(4) by auto
  have m2: "cell (mutexes s2) ?b = Some Free" using cp(4) lm by (simp add: cell_append)
  have av2: "\<not> held_by_other (thread s2) Free" by (simp add: held_by_other_def)
  from destroy_all[OF cp(2) ne assms(3) r2 m2 av2] obtain s' tr where
    d: "run (map Destroy hs) s2 = Done () s'"
      "cell (mutexes s') ?b = None" "cell (counters s') ?b = None" "cell (flags s') ?b = None"
      "trace s' = trace s2 @ tr"
      "frees ?b tr = [Ev_delete_mutex ?b, Ev_delete_counter ?b, Ev_delete_flag ?b]"
      "map unat (stores ?b tr) = rev [0..<length hs]"
    by blast
  have "length hs = card (set hs)" using assms(3) by (simp add: distinct_card)
  then have len: "length hs = N + 1" using assms(4) by simp
  have "run (New # replicate N (Copy ?h) @ map Destroy hs) s = Done () s'"
    using new cp(1) d(1) by (simp add: run_append)
  moreover have ev: "events_since s s' = tr2 @ tr"
    using d(5) cp(6) by (simp add: events_since_def)
  moreover have "frees ?b (tr2 @ tr) = [Ev_delete_mutex ?b, Ev_delete_counter ?b, Ev_delete_flag ?b]"
    using cp5 d(6) by (simp add: frees_append)
  moreover have "map unat (stores ?b (tr2 @ tr)) = [2..<N + 2] @ rev [0..<N + 1]"
    using cp6 d(7) len by (simp add: stores_append add.commute)
  ultimately show ?thesis using d(2,3,4) by simp
qed

section \<open>The validity flag\<close>

text \<open>
  No member function writes true to a flag: the only write is the \<open>*IsValid = false\<close>
  of the destructor. So over any client program, completed or not, a flag that is false
  stays false until it is deleted. Destroying the original while a copy lives sets the
  flag to false at once, and the copy can still lock, unlock and read the flag;
  destroying a copy leaves every flag as it was.
\<close>

lemma flags_kept_same: "flags s' = flags s \<Longrightarrow> flags_kept s s'"
  by (simp add: flags_kept_def)

lemma flags_kept_trans: "flags_kept s s1 \<Longrightarrow> flags_kept s1 s2 \<Longrightarrow> flags_kept s s2"
  unfolding flags_kept_def by (meson le_trans less_le_trans)

lemma flags_kept_then_do:
  assumes "flags_kept s (state_of r)" "\<And>x s1. flags_kept s1 (state_of (f x s1))"
  shows "flags_kept s (state_of (then_do r f))"
proof (cases r)
  case (Done x s1)
  with assms(1) assms(2)[of s1 x] show ?thesis by (auto intro: flags_kept_trans)
next
  case (Undefined e s1)
  with assms(1) show ?thesis by simp
next
  case (Blocked m s1)
  with assms(1) show ?thesis by simp
qed

lemma flags_kept_mtx_lock: "flags_kept s (state_of (mtx_lock m s))"
  by (simp add: mtx_lock_def emit_def flags_kept_def split: option.splits)

lemma flags_kept_mtx_try_lock: "flags_kept s (state_of (mtx_try_lock m s))"
  by (simp add: mtx_try_lock_def emit_def flags_kept_def split: option.splits)

lemma flags_kept_mtx_unlock_after:
  "flags s1 = flags s \<Longrightarrow> flags_kept s (state_of (mtx_unlock m s1))"
  by (simp add: mtx_unlock_def emit_def flags_kept_def split: option.splits)

lemma flags_kept_mtx_unlock: "flags_kept s (state_of (mtx_unlock m s))"
  by (simp add: flags_kept_mtx_unlock_after)

lemma flags_kept_delete_mutex: "flags_kept s (state_of (delete_mutex m s))"
  by (simp add: delete_mutex_def emit_def flags_kept_def split: option.splits)

lemma flags_kept_load_counter: "flags_kept s (state_of (load_counter c s))"
  by (simp add: load_counter_def flags_kept_def split: option.splits)

lemma flags_kept_store_counter: "flags_kept s (state_of (store_counter c n s))"
  by (simp add: store_counter_def emit_def flags_kept_def split: option.splits)

lemma flags_kept_delete_counter: "flags_kept s (state_of (delete_counter c s))"
  by (simp add: delete_counter_def emit_def flags_kept_def split: option.splits)

lemma flags_kept_incr_counter: "flags_kept s (state_of (incr_counter c s))"
  unfolding incr_counter_def
  by (intro flags_kept_then_do flags_kept_load_counter flags_kept_store_counter)

lemma flags_kept_decr_counter: "flags_kept s (state_of (decr_counter c s))"
  unfolding decr_counter_def
  by (intro flags_kept_then_do flags_kept_load_counter flags_kept_store_counter)

lemma flags_kept_load_flag: "flags_kept s (state_of (load_flag v s))"
  by (simp add: load_flag_def flags_kept_def split: option.splits)

lemma flags_kept_store_False: "flags_kept s (state_of (store_flag v False s))"
  by (auto simp: store_flag_def emit_def flags_kept_def nth_list_update
        dest: cell_less split: option.splits if_splits)

lemma flags_kept_delete_flag: "flags_kept s (state_of (delete_flag v s))"
  by (auto simp: delete_flag_def emit_def flags_kept_def nth_list_update
        dest: cell_less split: option.splits if_splits)

lemma flags_kept_delete_block: "flags_kept s (state_of (delete_block t s))"
  unfolding delete_block_def
  by (intro flags_kept_then_do flags_kept_delete_mutex flags_kept_delete_counter
        flags_kept_delete_flag)

lemma flags_kept_if:
  "flags_kept s (state_of r1) \<Longrightarrow> flags_kept s (state_of r2) \<Longrightarrow>
   flags_kept s (state_of (if c then r1 else r2))"
  by simp

lemmas flags_kept_intros = flags_kept_then_do flags_kept_if flags_kept_mtx_lock
  flags_kept_mtx_unlock flags_kept_incr_counter flags_kept_decr_counter flags_kept_load_counter
  flags_kept_load_flag flags_kept_store_False flags_kept_delete_block

lemma flags_kept_new: "flags_kept s (state_of (MutexValidator_new s))"
  by (simp add: MutexValidator_new_def flags_kept_def nth_append)

lemma flags_kept_copy: "flags_kept s (state_of (MutexValidator_copy other s))"
  unfolding MutexValidator_copy_def
  by (cases "cell (objs s) other")
     (auto intro!: flags_kept_intros flags_kept_mtx_unlock_after simp: flags_kept_same)

lemma flags_kept_clear_old: "flags_kept s (state_of (clear_old t s))"
  unfolding clear_old_def
  by (auto intro!: flags_kept_intros simp: flags_kept_same)

lemma flags_kept_set_new: "flags_kept s (state_of (set_new this other s))"
  unfolding set_new_def
  by (cases "cell (objs s) other")
     (auto intro!: flags_kept_intros flags_kept_mtx_unlock_after simp: flags_kept_same)

lemma flags_kept_assign: "flags_kept s (state_of (assign this other s))"
  unfolding assign_def
  by (cases "cell (objs s) this")
     (auto intro!: flags_kept_intros flags_kept_clear_old flags_kept_set_new simp: flags_kept_same)

lemma flags_kept_destroy: "flags_kept s (state_of (destroy this s))"
  unfolding destroy_def
  by (cases "cell (objs s) this")
     (auto intro!: flags_kept_intros simp: flags_kept_same)

lemma flags_kept_perform: "flags_kept s (state_of (perform a s))"
proof (cases a)
  case New
  then show ?thesis using flags_kept_new[of s] by (simp add: MutexValidator_new_def)
next
  case (Copy other)
  then show ?thesis
    by (auto intro!: flags_kept_then_do flags_kept_copy simp: flags_kept_same)
next
  case (Assign this other)
  then show ?thesis by (simp add: flags_kept_assign)
next
  case (Destroy this)
  then show ?thesis by (simp add: flags_kept_destroy)
next
  case (Call_Lock this)
  then show ?thesis
    by (cases "cell (objs s) this") (simp_all add: Lock_def flags_kept_mtx_lock flags_kept_same)
next
  case (Call_TryLock this)
  then show ?thesis
    by (cases "cell (objs s) this")
       (auto intro!: flags_kept_then_do flags_kept_mtx_try_lock simp: TryLock_def flags_kept_same)
next
  case (Call_Unlock this)
  then show ?thesis
    by (cases "cell (objs s) this") (simp_all add: Unlock_def flags_kept_mtx_unlock flags_kept_same)
next
  case (Call_GetIsValid this)
  then show ?thesis
    by (cases "cell (objs s) this")
       (auto intro!: flags_kept_then_do flags_kept_load_flag simp: GetIsValid_def flags_kept_same)
next
  case (Switch th)
  then show ?thesis by (simp add: flags_kept_same)
qed

lemma flags_kept_run: "flags_kept s (state_of (run as s))"
proof (induction as arbitrary: s)
  case Nil
  then show ?case by (simp add: flags_kept_same)
next
  case (Cons a as)
  show ?case
    by (simp only: run.simps) (intro flags_kept_then_do flags_kept_perform Cons.IH)
qed

lemma flag_one_way:
  assumes "cell (flags s) b = Some False"
  shows "cell (flags (state_of (run as s))) b \<noteq> Some True"
proof -
  from assms have b: "b < length (flags s)" "flags s ! b \<noteq> Some True"
    by (simp_all add: cell_def split: if_splits)
  with flags_kept_run[of s as] show ?thesis
    by (auto simp: flags_kept_def cell_def)
qed

lemma destroy_original_first:
  assumes "consistent s" "cell (objs s) h = Some t" "IsOriginal t"
    "cell (objs s) c = Some u" "c \<noteq> h" "Counter u = Counter t"
    "cell (mutexes s) (Mtx t) = Some d" "\<not> held_by_other (thread s) d"
  shows "\<exists>s'. destroy h s = Done () s' \<and>
           cell (flags s') (IsValid u) = Some False \<and>
           value_of (GetIsValid c s') = Some False \<and>
           (\<exists>s''. then_do (Lock c s') (\<lambda>_. Unlock c) = Done () s'')"
proof -
  let ?b = "Counter t"
  from consistent_obj[OF assms(1,2)] obtain n v where
    p: "Mtx t = ?b" "IsValid t = ?b" and
    k: "cell (counters s) ?b = Some n"
       "cell (flags s) ?b = Some v" "unat n = length (referrers (objs s) ?b)" and
    mem1: "h \<in> set (referrers (objs s) ?b)"
    by blast
  from consistent_obj[OF assms(1,4)] assms(6) have
    pu: "Mtx u = ?b" "IsValid u = ?b" and mem2: "c \<in> set (referrers (objs s) ?b)"
    by simp_all
  have "card {h, c} \<le> card (set (referrers (objs s) ?b))"
    using mem1 mem2 by (intro card_mono) simp_all
  then have "2 \<le> unat n" using assms(5) k(3) by (simp add: length_referrers)
  then have n1: "n \<noteq> 1" by auto
  have m: "cell (flags s) (IsValid t) = Some v"
    using k p by simp_all
  have md: "cell (mutexes s) ?b = Some d" using assms(7) p by simp
  show ?thesis
    using destroy_shared[OF assms(2,7,8) k(1) m n1] assms(3,4,5,8) p pu k md
      cell_less[OF md] cell_less[OF k(2)]
    by (simp add: GetIsValid_def Lock_def Unlock_def load_flag_def mtx_lock_def mtx_unlock_def
          emit_def cell_update held_by_acquired)
qed

lemma destroy_copy_keeps_flag:
  assumes "cell (objs s) h = Some t" "\<not> IsOriginal t" "cell (mutexes s) (Mtx t) = Some d"
    "\<not> held_by_other (thread s) d"
    "cell (counters s) (Counter t) = Some n" "cell (flags s) (IsValid t) = Some v" "n \<noteq> 1"
  shows "flags (state_of (destroy h s)) = flags s"
  using destroy_shared[OF assms(1,3,4,5,6,7)] assms(2) by simp

section \<open>The second half of the assignment\<close>

text \<open>Whatever it does, it adds to the trace and leaves a deleted mutex deleted.\<close>

lemma trace_mtx_lock: "\<exists>tr. trace (state_of (mtx_lock m s)) = trace s @ tr"
  by (simp add: mtx_lock_def emit_def split: option.splits)

lemma trace_mtx_unlock: "\<exists>tr. trace (state_of (mtx_unlock m s)) = trace s @ tr"
  by (simp add: mtx_unlock_def emit_def split: option.splits)

lemma trace_incr_counter: "\<exists>tr. trace (state_of (incr_counter c s)) = trace s @ tr"
  by (simp add: incr_counter_def load_counter_def store_counter_def emit_def split: option.splits)

lemma trace_then_do:
  assumes "\<exists>tr. trace (state_of r) = trace s @ tr"
    "\<And>x s1. \<exists>tr. trace (state_of (f x s1)) = trace s1 @ tr"
  shows "\<exists>tr. trace (state_of (then_do r f)) = trace s @ tr"
proof (cases r)
  case (Done x s1)
  with assms(1) assms(2)[of x s1] show ?thesis by auto
next
  case (Undefined e s1)
  with assms(1) show ?thesis by simp
next
  case (Blocked m s1)
  with assms(1) show ?thesis by simp
qed

lemma set_new_trace: "\<exists>tr. trace (state_of (set_new this other s)) = trace s @ tr"
proof (cases "cell (objs s) other")
  case None
  then show ?thesis by (simp add: set_new_def)
next
  case (Some ot)
  have u: "\<exists>tr. trace (state_of (mtx_unlock m (s1\<lparr>objs := os\<rparr>))) = trace s1 @ tr" for m s1 os
    using trace_mtx_unlock[of m "s1\<lparr>objs := os\<rparr>"] by simp
  show ?thesis
    unfolding set_new_def using Some
    by (auto intro!: trace_then_do trace_mtx_lock trace_incr_counter u)
qed

lemma deleted_mtx_lock:
  "cell (mutexes s) m = None \<Longrightarrow> cell (mutexes (state_of (mtx_lock m' s))) m = None"
  by (auto simp: mtx_lock_def emit_def cell_update split: option.splits)

lemma deleted_mtx_unlock:
  "cell (mutexes s) m = None \<Longrightarrow> cell (mutexes (state_of (mtx_unlock m' s))) m = None"
  by (auto simp: mtx_unlock_def emit_def cell_update split: option.splits)

lemma deleted_incr_counter:
  "cell (mutexes s) m = None \<Longrightarrow> cell (mutexes (state_of (incr_counter c s))) m = None"
  by (auto simp: incr_counter_def load_counter_def store_counter_def emit_def split: option.splits)

lemma deleted_then_do:
  assumes "cell (mutexes (state_of r)) m = None"
    "\<And>x s1. cell (mutexes s1) m = None \<Longrightarrow> cell (mutexes (state_of (f x s1))) m = None"
  shows "cell (mutexes (state_of (then_do r f))) m = None"
  using assms by (cases r) simp_all

lemma set_new_deleted_mutex:
  assumes "cell (mutexes s) m = None"
  shows "cell (mutexes (state_of (set_new this other s))) m = None"
proof (cases "cell (objs s) other")
  case None
  with assms show ?thesis by (simp add: set_new_def)
next
  case (Some ot)
  have u: "cell (mutexes s1) m = None \<Longrightarrow>
      cell (mutexes (state_of (mtx_unlock m' (s1\<lparr>objs := os\<rparr>)))) m = None" for m' s1 os
    using deleted_mtx_unlock[of "s1\<lparr>objs := os\<rparr>" m m'] by simp
  show ?thesis
    unfolding set_new_def using Some assms
    by (auto intro!: deleted_then_do deleted_mtx_lock deleted_incr_counter u)
qed

section \<open>Assignment\<close>

text \<open>
  C1. The claim: when a copy-assignment replaces the block of a handle whose
  \<open>IsOriginal\<close> is true by another block, the old block's validity flag is set to false
  before its counter is decremented, as the destructor does. The code does not do it:
  lines 70-81 of \<open>operator=\<close> lock, decrement, maybe delete, and unlock; there is no
  test of \<open>IsOriginal\<close> and no write to \<open>*IsValid\<close>. In \<open>pair_and_single\<close>, object 0
  is the original of block 0; the assignment \<open>object 0 = object 2\<close> writes the counter of
  block 0 and nothing else of it, and the flag of block 0 still holds true afterwards.
\<close>

theorem assign_keeps_old_flag:
  "cell (objs pair_and_single) 0 =
     Some \<lparr>Mtx = 0, Counter = 0, IsValid = 0, IsOriginal = True\<rparr> \<and>
   fault_of (assign 0 2 pair_and_single) = None \<and>
   events_since pair_and_single (state_of (assign 0 2 pair_and_single)) =
     [Ev_lock 0, Ev_counter 0 1, Ev_unlock 0, Ev_lock 1, Ev_counter 1 2, Ev_unlock 1] \<and>
   cell (flags (state_of (assign 0 2 pair_and_single))) 0 = Some True"
  unfolding pair_and_single_def by code_simp

text \<open>
  C2. The claim: over any sequence of calls on the handles of one block, the validity
  flag goes from true to false exactly once and never back, on the destruction or the
  release of the handle whose \<open>IsOriginal\<close> is true, never on the destruction of a
  copy; after the original is destroyed, the copies can still lock and read false.
  The flag is one-way (\<open>flag_one_way\<close>), the destruction of the original clears it
  and leaves the copies usable (\<open>destroy_original_first\<close>), the destruction of a copy
  does not touch it (\<open>destroy_copy_keeps_flag\<close>). The release by assignment does not
  clear it (C1): objects 0 and 1 share block 0, object 0 being the original; object 0 is
  assigned from object 2, a handle of another block, and is then destroyed. Both calls
  complete. The copy, object 1, can still lock, and it still reads \<open>true\<close>: the
  original is gone and false has never been written to the flag of its block.
\<close>

theorem released_original_leaves_flag:
  "fault_of (run [New, Copy 0, New, Assign 0 2, Destroy 0, Call_Lock 1] start) = None \<and>
   value_of (GetIsValid 1
     (state_of (run [New, Copy 0, New, Assign 0 2, Destroy 0, Call_Lock 1] start))) = Some True \<and>
   cell (objs (state_of (run [New, Copy 0, New, Assign 0 2, Destroy 0, Call_Lock 1] start))) 0 = None \<and>
   filter (\<lambda>e. e = Ev_flag 0 False)
     (trace (state_of (run [New, Copy 0, New, Assign 0 2, Destroy 0, Call_Lock 1] start))) = []"
  by code_simp

text \<open>
  C4. Self-assignment \<open>h = h\<close> is detected by the test \<open>this != &other\<close> and does
  nothing: the state is returned as it was, so no counter, no flag and no \<open>IsOriginal\<close>
  changes, nothing is released and nothing is linked.
\<close>

theorem self_assignment_noop: "assign h h s = Done () s"
  by (simp add: assign_def)

text \<open>
  C10. Two distinct live handles \<open>h1\<close> and \<open>h2\<close> on the same block, in a consistent
  state, the mutex of the block not being held by another thread (the call would wait
  for it): the counter of the block is at least 2, and \<open>h1 = h2\<close> decrements it and
  increments it again, so the counters, the flags and the mutexes are what they were;
  nothing is deleted; \<open>h1\<close> keeps its pointers and has \<open>IsOriginal = false\<close>; no other
  object changes.
\<close>

theorem assign_within_block:
  assumes "consistent s" "h1 \<noteq> h2" "cell (objs s) h1 = Some t1" "cell (objs s) h2 = Some t2"
    "Mtx t1 = Mtx t2" "Counter t1 = Counter t2" "IsValid t1 = IsValid t2"
    "cell (mutexes s) (Mtx t1) = Some d" "\<not> held_by_other (thread s) d"
  shows "\<exists>n s'. cell (counters s) (Counter t1) = Some n \<and> 2 \<le> unat n \<and>
           assign h1 h2 s = Done () s' \<and>
           counters s' = counters s \<and> flags s' = flags s \<and> mutexes s' = mutexes s \<and>
           cell (objs s') h1 = Some (t1\<lparr>IsOriginal := False\<rparr>) \<and>
           (\<forall>h. h \<noteq> h1 \<longrightarrow> cell (objs s') h = cell (objs s) h) \<and>
           events_since s s' =
             [Ev_lock (Mtx t1), Ev_counter (Counter t1) (n - 1), Ev_unlock (Mtx t1),
              Ev_lock (Mtx t1), Ev_counter (Counter t1) n, Ev_unlock (Mtx t1)]"
proof -
  let ?b = "Counter t1"
  from consistent_obj[OF assms(1,3)] obtain n v where
    p: "Mtx t1 = ?b" "IsValid t1 = ?b" and
    c: "cell (counters s) ?b = Some n"
       "cell (flags s) ?b = Some v" "unat n = length (referrers (objs s) ?b)" and
    mem1: "h1 \<in> set (referrers (objs s) ?b)"
    by blast
  from consistent_obj[OF assms(1,4)] assms(6) have mem2: "h2 \<in> set (referrers (objs s) ?b)"
    by simp
  have "card {h1, h2} \<le> card (set (referrers (objs s) ?b))"
    using mem1 mem2 by (intro card_mono) simp_all
  then have two: "2 \<le> unat n"
    using assms(2) c(3) by (simp add: length_referrers)
  then have n1: "n \<noteq> 1" by auto
  note m = assms(8) and av = assms(9)
  let ?s1 = "s\<lparr>counters := (counters s)[?b := Some (n - 1)],
        trace := trace s @ [Ev_lock (Mtx t1), Ev_counter ?b (n - 1), Ev_unlock (Mtx t1)]\<rparr>"
  have co: "clear_old t1 s = Done () ?s1"
    using clear_old_shared[OF m av c(1) n1] .
  have o1: "cell (objs ?s1) h2 = Some t2" using assms(4) by simp
  have m1: "cell (mutexes ?s1) (Mtx t2) = Some d" using m assms(5) by simp
  have av1: "\<not> held_by_other (thread ?s1) d" using av by simp
  have k1: "cell (counters ?s1) (Counter t2) = Some (n - 1)"
    using cell_less[OF c(1)] assms(6) by (simp add: cell_update)
  have t1': "\<lparr>Mtx = Mtx t2, Counter = Counter t2, IsValid = IsValid t2, IsOriginal = False\<rparr> =
      t1\<lparr>IsOriginal := False\<rparr>"
    using assms(5,6,7) by simp
  have sn: "set_new h1 h2 ?s1 = Done ()
     (?s1\<lparr>counters := (counters ?s1)[Counter t2 := Some (n - 1 + 1)],
        objs := (objs ?s1)[h1 := Some (t1\<lparr>IsOriginal := False\<rparr>)],
        trace := trace ?s1 @ [Ev_lock (Mtx t2), Ev_counter (Counter t2) (n - 1 + 1), Ev_unlock (Mtx t2)]\<rparr>)"
    using set_new_result[OF o1 m1 av1 k1, of h1] t1' by simp
  have as: "assign h1 h2 s = Done ()
     (s\<lparr>objs := (objs s)[h1 := Some (t1\<lparr>IsOriginal := False\<rparr>)],
        trace := trace s @ [Ev_lock (Mtx t1), Ev_counter ?b (n - 1), Ev_unlock (Mtx t1),
              Ev_lock (Mtx t1), Ev_counter ?b n, Ev_unlock (Mtx t1)]\<rparr>)"
    using assms(2,3,5,6) co sn cell_update_id[OF c(1)] by (simp add: assign_def)
  show ?thesis
    using c(1) two as cell_less[OF assms(3)]
    by (simp add: events_since_def cell_update)
qed

theorem assign_within_block_witness:
  "consistent shared_pair \<and>
   cell (objs shared_pair) 0 = Some \<lparr>Mtx = 0, Counter = 0, IsValid = 0, IsOriginal = True\<rparr> \<and>
   cell (objs shared_pair) 1 = Some \<lparr>Mtx = 0, Counter = 0, IsValid = 0, IsOriginal = False\<rparr> \<and>
   cell (mutexes shared_pair) 0 = Some Free \<and>
   \<not> held_by_other (thread shared_pair) Free \<and>
   cell (counters shared_pair) 0 = Some 2 \<and>
   (\<exists>s'. assign 0 1 shared_pair = Done () s' \<and>
      counters s' = counters shared_pair \<and> flags s' = flags shared_pair \<and>
      mutexes s' = mutexes shared_pair \<and>
      cell (objs s') 0 = Some \<lparr>Mtx = 0, Counter = 0, IsValid = 0, IsOriginal = False\<rparr> \<and>
      cell (objs s') 1 = Some \<lparr>Mtx = 0, Counter = 0, IsValid = 0, IsOriginal = False\<rparr> \<and>
      events_since shared_pair s' =
        [Ev_lock 0, Ev_counter 0 1, Ev_unlock 0, Ev_lock 0, Ev_counter 0 2, Ev_unlock 0])"
proof -
  let ?t1 = "\<lparr>Mtx = 0, Counter = 0, IsValid = 0, IsOriginal = True\<rparr>"
  let ?t2 = "\<lparr>Mtx = 0, Counter = 0, IsValid = 0, IsOriginal = False\<rparr>"
  have c: "consistent shared_pair" unfolding shared_pair_def by code_simp
  have ne: "(0::nat) \<noteq> 1" by simp
  have a: "cell (objs shared_pair) 0 = Some ?t1" unfolding shared_pair_def by code_simp
  have b: "cell (objs shared_pair) 1 = Some ?t2" unfolding shared_pair_def by code_simp
  have k: "cell (counters shared_pair) 0 = Some 2" unfolding shared_pair_def by code_simp
  have m: "cell (mutexes shared_pair) (Mtx ?t1) = Some Free" unfolding shared_pair_def by code_simp
  have av: "\<not> held_by_other (thread shared_pair) Free" by (simp add: held_by_other_def)
  have e1: "Mtx ?t1 = Mtx ?t2" and e2: "Counter ?t1 = Counter ?t2" and e3: "IsValid ?t1 = IsValid ?t2"
    by simp_all
  from assign_within_block[OF c ne a b e1 e2 e3 m av] obtain n s' where
    r: "cell (counters shared_pair) (Counter ?t1) = Some n"
       "assign 0 1 shared_pair = Done () s'"
       "counters s' = counters shared_pair" "flags s' = flags shared_pair"
       "mutexes s' = mutexes shared_pair"
       "cell (objs s') 0 = Some (?t1\<lparr>IsOriginal := False\<rparr>)"
       "\<forall>h. h \<noteq> 0 \<longrightarrow> cell (objs s') h = cell (objs shared_pair) h"
       "events_since shared_pair s' =
          [Ev_lock (Mtx ?t1), Ev_counter (Counter ?t1) (n - 1), Ev_unlock (Mtx ?t1),
           Ev_lock (Mtx ?t1), Ev_counter (Counter ?t1) n, Ev_unlock (Mtx ?t1)]"
    by blast
  from r(1) k have n: "n = 2" by simp
  from r(7) b have "cell (objs s') 1 = Some ?t2" by simp
  with r n show ?thesis using c a b k m av by simp
qed

section \<open>Destruction\<close>

text \<open>
  C6. The destructor of a live handle on an allocated block, whose mutex no other thread
  holds, acquires the block's mutex, then writes false to the validity flag if the handle
  is the original, then decrements the counter, then deletes the mutex, the counter and
  the flag if and only if the counter has reached 0. All of it comes after the \<open>lock\<close>
  and before any \<open>unlock\<close>. The events are listed in program order; the cells
  afterwards are deleted exactly when the counter reached 0; the destructor returns.
\<close>

theorem destroy_order:
  assumes "cell (objs s) this = Some t" "cell (mutexes s) (Mtx t) = Some d"
    "\<not> held_by_other (thread s) d"
    "cell (counters s) (Counter t) = Some n" "cell (flags s) (IsValid t) = Some v"
  shows "events_since s (state_of (destroy this s)) =
           Ev_lock (Mtx t) # (if IsOriginal t then [Ev_flag (IsValid t) False] else []) @
           Ev_counter (Counter t) (n - 1) #
           (if n - 1 = 0
            then [Ev_delete_mutex (Mtx t), Ev_delete_counter (Counter t), Ev_delete_flag (IsValid t),
                  Ev_unlock_deleted (Mtx t)]
            else [Ev_unlock (Mtx t)]) \<and>
         cell (flags (state_of (destroy this s))) (IsValid t) =
           (if n - 1 = 0 then None else Some (v \<and> \<not> IsOriginal t)) \<and>
         cell (counters (state_of (destroy this s))) (Counter t) =
           (if n - 1 = 0 then None else Some (n - 1)) \<and>
         cell (mutexes (state_of (destroy this s))) (Mtx t) =
           (if n - 1 = 0 then None else Some d) \<and>
         value_of (destroy this s) = Some ()"
proof (cases "n = 1")
  case True
  with assms show ?thesis
    using cell_less[OF assms(2)] cell_less[OF assms(4)] cell_less[OF assms(5)]
    by (simp add: destroy_last events_since_def cell_update)
next
  case False
  with assms show ?thesis
    using cell_less[OF assms(2)] cell_less[OF assms(4)] cell_less[OF assms(5)]
    by (simp add: destroy_shared events_since_def cell_update)
qed

theorem destroy_order_witness:
  "cell (objs shared_pair) 0 = Some \<lparr>Mtx = 0, Counter = 0, IsValid = 0, IsOriginal = True\<rparr> \<and>
   cell (mutexes shared_pair) 0 = Some Free \<and>
   \<not> held_by_other (thread shared_pair) Free \<and>
   cell (counters shared_pair) 0 = Some 2 \<and>
   cell (flags shared_pair) 0 = Some True \<and>
   events_since shared_pair (state_of (destroy 0 shared_pair)) =
     [Ev_lock 0, Ev_flag 0 False, Ev_counter 0 1, Ev_unlock 0] \<and>
   cell (flags (state_of (destroy 0 shared_pair))) 0 = Some False \<and>
   cell (counters (state_of (destroy 0 shared_pair))) 0 = Some 1 \<and>
   cell (mutexes (state_of (destroy 0 shared_pair))) 0 = Some Free \<and>
   value_of (destroy 0 shared_pair) = Some ()"
proof -
  let ?t = "\<lparr>Mtx = 0, Counter = 0, IsValid = 0, IsOriginal = True\<rparr>"
  have a: "cell (objs shared_pair) 0 = Some ?t"
    unfolding shared_pair_def by code_simp
  have b: "cell (mutexes shared_pair) (Mtx ?t) = Some Free"
    unfolding shared_pair_def by code_simp
  have av: "\<not> held_by_other (thread shared_pair) Free" by (simp add: held_by_other_def)
  have c: "cell (counters shared_pair) (Counter ?t) = Some 2"
    unfolding shared_pair_def by code_simp
  have d: "cell (flags shared_pair) (IsValid ?t) = Some True"
    unfolding shared_pair_def by code_simp
  show ?thesis using a b av c d destroy_order[OF a b av c d] by simp
qed

text \<open>
  C5. When the counter reaches 0 (it was 1), the destructor and the first half of
  \<open>operator=\<close> delete the mutex, the counter and the flag, and only then call
  \<open>Mtx->unlock()\<close>: the call is made on a mutex that has been deleted. In both functions
  the three deletes come first and the unlock of the deleted mutex is the next event;
  it ends the destructor, and in \<open>operator=\<close> the second half follows it.
\<close>

theorem unlock_after_delete:
  assumes "cell (objs s) this = Some t" "cell (mutexes s) (Mtx t) = Some d"
    "\<not> held_by_other (thread s) d"
    "cell (counters s) (Counter t) = Some 1" "cell (flags s) (IsValid t) = Some v"
    "this \<noteq> other"
  shows "events_since s (state_of (destroy this s)) =
           Ev_lock (Mtx t) # (if IsOriginal t then [Ev_flag (IsValid t) False] else []) @
           [Ev_counter (Counter t) 0, Ev_delete_mutex (Mtx t), Ev_delete_counter (Counter t),
            Ev_delete_flag (IsValid t), Ev_unlock_deleted (Mtx t)] \<and>
         cell (mutexes (state_of (destroy this s))) (Mtx t) = None \<and>
         take 6 (events_since s (state_of (assign this other s))) =
           [Ev_lock (Mtx t), Ev_counter (Counter t) 0, Ev_delete_mutex (Mtx t),
            Ev_delete_counter (Counter t), Ev_delete_flag (IsValid t),
            Ev_unlock_deleted (Mtx t)] \<and>
         cell (mutexes (state_of (assign this other s))) (Mtx t) = None"
proof -
  let ?tr = "[Ev_lock (Mtx t), Ev_counter (Counter t) 0, Ev_delete_mutex (Mtx t),
            Ev_delete_counter (Counter t), Ev_delete_flag (IsValid t),
            Ev_unlock_deleted (Mtx t)]"
  let ?s1 = "s\<lparr>mutexes := (mutexes s)[Mtx t := None],
        counters := (counters s)[Counter t := None],
        flags := (flags s)[IsValid t := None],
        trace := trace s @ ?tr\<rparr>"
  have as: "assign this other s = set_new this other ?s1"
    using assms clear_old_last[OF assms(2,3,4,5)] by (simp add: assign_def)
  have gone: "cell (mutexes ?s1) (Mtx t) = None"
    using cell_less[OF assms(2)] by (simp add: cell_update)
  from set_new_trace[of this other ?s1] obtain rest where
    "trace (state_of (set_new this other ?s1)) = trace ?s1 @ rest" by blast
  then have "events_since s (state_of (assign this other s)) = ?tr @ rest"
    by (simp add: as events_since_def)
  then have "take 6 (events_since s (state_of (assign this other s))) = ?tr" by simp
  moreover have "cell (mutexes (state_of (assign this other s))) (Mtx t) = None"
    unfolding as using gone by (rule set_new_deleted_mutex)
  ultimately show ?thesis
    using assms cell_less[OF assms(2)]
    by (simp add: destroy_last events_since_def cell_update)
qed

theorem unlock_after_delete_witness:
  "cell (objs two_blocks) 0 = Some \<lparr>Mtx = 0, Counter = 0, IsValid = 0, IsOriginal = True\<rparr> \<and>
   cell (mutexes two_blocks) 0 = Some Free \<and>
   \<not> held_by_other (thread two_blocks) Free \<and>
   cell (counters two_blocks) 0 = Some 1 \<and>
   cell (flags two_blocks) 0 = Some True \<and>
   events_since two_blocks (state_of (destroy 0 two_blocks)) =
     [Ev_lock 0, Ev_flag 0 False, Ev_counter 0 0, Ev_delete_mutex 0, Ev_delete_counter 0,
      Ev_delete_flag 0, Ev_unlock_deleted 0] \<and>
   cell (mutexes (state_of (destroy 0 two_blocks))) 0 = None \<and>
   take 6 (events_since two_blocks (state_of (assign 0 1 two_blocks))) =
     [Ev_lock 0, Ev_counter 0 0, Ev_delete_mutex 0, Ev_delete_counter 0, Ev_delete_flag 0,
      Ev_unlock_deleted 0] \<and>
   cell (mutexes (state_of (assign 0 1 two_blocks))) 0 = None"
proof -
  let ?t = "\<lparr>Mtx = 0, Counter = 0, IsValid = 0, IsOriginal = True\<rparr>"
  have a: "cell (objs two_blocks) 0 = Some ?t"
    unfolding two_blocks_def by code_simp
  have b: "cell (mutexes two_blocks) (Mtx ?t) = Some Free"
    unfolding two_blocks_def by code_simp
  have av: "\<not> held_by_other (thread two_blocks) Free" by (simp add: held_by_other_def)
  have c: "cell (counters two_blocks) (Counter ?t) = Some 1"
    unfolding two_blocks_def by code_simp
  have d: "cell (flags two_blocks) (IsValid ?t) = Some True"
    unfolding two_blocks_def by code_simp
  have e: "(0::nat) \<noteq> 1" by simp
  show ?thesis using a b av c d unlock_after_delete[OF a b av c d e] by simp
qed

section \<open>Copy construction\<close>

text \<open>
  C7. Copy construction from a live handle \<open>other\<close> on block X, whose mutex no other
  thread holds: the new object holds the three pointers of \<open>other\<close> and
  \<open>IsOriginal = false\<close>; the counter of X is incremented by 1 (as a \<open>std::size_t\<close>; it
  does not wrap unless it was at its maximum); no other counter changes; \<open>other\<close> and
  every other object are as they were; no flag changes; nothing is deleted and the mutex
  is released again.
\<close>

theorem copy_construction:
  assumes "cell (objs s) other = Some ot" "cell (mutexes s) (Mtx ot) = Some d"
    "\<not> held_by_other (thread s) d" "cell (counters s) (Counter ot) = Some n"
  shows "\<exists>s'. MutexValidator_copy other s = Done (length (objs s)) s' \<and>
           cell (objs s') (length (objs s)) =
             Some \<lparr>Mtx = Mtx ot, Counter = Counter ot, IsValid = IsValid ot, IsOriginal = False\<rparr> \<and>
           cell (counters s') (Counter ot) = Some (n + 1) \<and>
           (unat n < 2 ^ 64 - 1 \<longrightarrow> unat (n + 1) = unat n + 1) \<and>
           (\<forall>c. c \<noteq> Counter ot \<longrightarrow> cell (counters s') c = cell (counters s) c) \<and>
           (\<forall>h. h \<noteq> length (objs s) \<longrightarrow> cell (objs s') h = cell (objs s) h) \<and>
           cell (objs s') other = Some ot \<and>
           flags s' = flags s \<and> mutexes s' = mutexes s \<and>
           events_since s s' =
             [Ev_lock (Mtx ot), Ev_counter (Counter ot) (n + 1), Ev_unlock (Mtx ot)]"
proof -
  have "unat n < 2 ^ 64 - 1 \<longrightarrow> unat (n + 1) = unat n + 1"
    by (simp add: unat_word_ariths)
  then show ?thesis
    using assms cell_less[OF assms(1)] cell_less[OF assms(4)]
    by (simp add: copy_result events_since_def cell_update cell_append)
qed

theorem copy_construction_witness:
  "cell (objs two_blocks) 0 = Some \<lparr>Mtx = 0, Counter = 0, IsValid = 0, IsOriginal = True\<rparr> \<and>
   cell (mutexes two_blocks) 0 = Some Free \<and>
   \<not> held_by_other (thread two_blocks) Free \<and>
   cell (counters two_blocks) 0 = Some 1 \<and>
   (\<exists>s'. MutexValidator_copy 0 two_blocks = Done 2 s' \<and>
      cell (objs s') 2 = Some \<lparr>Mtx = 0, Counter = 0, IsValid = 0, IsOriginal = False\<rparr> \<and>
      cell (counters s') 0 = Some 2 \<and>
      unat (1 + 1 :: size_t) = 2 \<and>
      cell (counters s') 1 = Some 1 \<and>
      cell (objs s') 0 = Some \<lparr>Mtx = 0, Counter = 0, IsValid = 0, IsOriginal = True\<rparr> \<and>
      cell (objs s') 1 = Some \<lparr>Mtx = 1, Counter = 1, IsValid = 1, IsOriginal = True\<rparr> \<and>
      flags s' = [Some True, Some True] \<and> mutexes s' = [Some Free, Some Free] \<and>
      events_since two_blocks s' = [Ev_lock 0, Ev_counter 0 2, Ev_unlock 0])"
proof -
  let ?t = "\<lparr>Mtx = 0, Counter = 0, IsValid = 0, IsOriginal = True\<rparr>"
  have a: "cell (objs two_blocks) 0 = Some ?t"
    unfolding two_blocks_def by code_simp
  have b: "cell (mutexes two_blocks) (Mtx ?t) = Some Free"
    unfolding two_blocks_def by code_simp
  have av: "\<not> held_by_other (thread two_blocks) Free" by (simp add: held_by_other_def)
  have c: "cell (counters two_blocks) (Counter ?t) = Some 1"
    unfolding two_blocks_def by code_simp
  have l: "length (objs two_blocks) = 2"
    unfolding two_blocks_def by code_simp
  have c1: "cell (counters two_blocks) 1 = Some 1"
    unfolding two_blocks_def by code_simp
  have o1: "cell (objs two_blocks) 1 = Some \<lparr>Mtx = 1, Counter = 1, IsValid = 1, IsOriginal = True\<rparr>"
    unfolding two_blocks_def by code_simp
  have f: "flags two_blocks = [Some True, Some True]"
    unfolding two_blocks_def by code_simp
  have m: "mutexes two_blocks = [Some Free, Some Free]"
    unfolding two_blocks_def by code_simp
  from copy_construction[OF a b av c] obtain s' where
    s': "MutexValidator_copy 0 two_blocks = Done (length (objs two_blocks)) s'"
      "cell (objs s') (length (objs two_blocks)) =
         Some \<lparr>Mtx = Mtx ?t, Counter = Counter ?t, IsValid = IsValid ?t, IsOriginal = False\<rparr>"
      "cell (counters s') (Counter ?t) = Some (1 + 1)"
      "unat (1 :: size_t) < 2 ^ 64 - 1 \<longrightarrow> unat (1 + 1 :: size_t) = unat (1 :: size_t) + 1"
      "\<forall>c. c \<noteq> Counter ?t \<longrightarrow> cell (counters s') c = cell (counters two_blocks) c"
      "\<forall>h. h \<noteq> length (objs two_blocks) \<longrightarrow> cell (objs s') h = cell (objs two_blocks) h"
      "cell (objs s') 0 = Some ?t"
      "flags s' = flags two_blocks" "mutexes s' = mutexes two_blocks"
      "events_since two_blocks s' =
         [Ev_lock (Mtx ?t), Ev_counter (Counter ?t) (1 + 1), Ev_unlock (Mtx ?t)]"
    by blast
  have "cell (counters s') 1 = Some 1" using s'(5) c1 by simp
  moreover have "cell (objs s') 1 = Some \<lparr>Mtx = 1, Counter = 1, IsValid = 1, IsOriginal = True\<rparr>"
    using s'(6) o1 l by simp
  ultimately show ?thesis
    using a b av c s' l f m by simp
qed

section \<open>TryLock\<close>

text \<open>
  C9. \<open>TryLock\<close> on a live handle whose mutex exists never waits: it returns. When
  another thread holds the mutex it returns false and changes nothing, where \<open>Lock\<close>
  would wait; otherwise, so on a mutex that nobody holds, it returns true and the
  running thread holds the mutex.
\<close>

theorem trylock_never_blocks:
  assumes "cell (objs s) this = Some t" "cell (mutexes s) (Mtx t) = Some d"
  shows "(held_by_other (thread s) d \<longrightarrow>
            TryLock this s = Done False s \<and> Lock this s = Blocked (Mtx t) s) \<and>
         (\<not> held_by_other (thread s) d \<longrightarrow>
            value_of (TryLock this s) = Some True \<and>
            cell (mutexes (state_of (TryLock this s))) (Mtx t) = Some (acquired (thread s) d) \<and>
            held_by (thread s) (acquired (thread s) d) \<and>
            events_since s (state_of (TryLock this s)) = [Ev_lock (Mtx t)]) \<and>
         (d = Free \<longrightarrow>
            value_of (TryLock this s) = Some True \<and>
            cell (mutexes (state_of (TryLock this s))) (Mtx t) = Some (Held (thread s) 0)) \<and>
         (\<forall>m s'. TryLock this s \<noteq> Blocked m s')"
  using assms cell_less[OF assms(2)]
  by (auto simp: TryLock_def Lock_def mtx_try_lock_def mtx_lock_def emit_def events_since_def
        cell_update held_by_acquired held_by_other_def)

theorem trylock_never_blocks_witness:
  "cell (objs pair_held_elsewhere) 1 =
     Some \<lparr>Mtx = 0, Counter = 0, IsValid = 0, IsOriginal = False\<rparr> \<and>
   cell (mutexes pair_held_elsewhere) 0 = Some (Held 0 0) \<and>
   thread pair_held_elsewhere = 1 \<and>
   held_by_other 1 (Held 0 0) \<and>
   TryLock 1 pair_held_elsewhere = Done False pair_held_elsewhere \<and>
   Lock 1 pair_held_elsewhere = Blocked 0 pair_held_elsewhere \<and>
   cell (objs shared_pair) 1 = Some \<lparr>Mtx = 0, Counter = 0, IsValid = 0, IsOriginal = False\<rparr> \<and>
   cell (mutexes shared_pair) 0 = Some Free \<and>
   thread shared_pair = 0 \<and>
   value_of (TryLock 1 shared_pair) = Some True \<and>
   cell (mutexes (state_of (TryLock 1 shared_pair))) 0 = Some (Held 0 0)"
proof -
  let ?t = "\<lparr>Mtx = 0, Counter = 0, IsValid = 0, IsOriginal = False\<rparr>"
  have a: "cell (objs pair_held_elsewhere) 1 = Some ?t"
    unfolding pair_held_elsewhere_def by code_simp
  have b: "cell (mutexes pair_held_elsewhere) (Mtx ?t) = Some (Held 0 0)"
    unfolding pair_held_elsewhere_def by code_simp
  have th: "thread pair_held_elsewhere = 1"
    unfolding pair_held_elsewhere_def by code_simp
  have h: "held_by_other 1 (Held 0 0)" by (simp add: held_by_other_def)
  have a': "cell (objs shared_pair) 1 = Some ?t"
    unfolding shared_pair_def by code_simp
  have b': "cell (mutexes shared_pair) (Mtx ?t) = Some Free"
    unfolding shared_pair_def by code_simp
  have th': "thread shared_pair = 0"
    unfolding shared_pair_def by code_simp
  show ?thesis
    using a b th h a' b' th' trylock_never_blocks[OF a b] trylock_never_blocks[OF a' b']
    by simp
qed

section \<open>The counter over the life of a block\<close>

text \<open>
  C3. From a consistent state (the initial one is), after any client program that
  completes, the counter of every allocated block is the number of live objects that
  point at it: it is 1 after the default construction, a copy construction and an
  assignment onto the block add 1, a destruction and an assignment away from it take 1
  off. The bound keeps a \<open>std::size_t\<close> from wrapping: fewer than \<open>2^64\<close> objects
  are ever constructed.

  For every \<open>N\<close> (so for every \<open>N >= 1\<close>): after one default construction and \<open>N\<close>
  copies of it, destroying the \<open>N + 1\<close> handles in any order \<open>hs\<close> completes and
  deletes the mutex, the counter and the flag of the block once each; the values written
  to the counter are \<open>2, ..., N + 1\<close> and then \<open>N, ..., 1, 0\<close>, so it reaches 0 once,
  at the end, and is never decremented below 0.
\<close>

theorem refcount_lifecycle:
  assumes "consistent s"
  shows "cell (counters (state_of (MutexValidator_new s))) (length (counters s)) = Some 1 \<and>
         (\<forall>as x s'. length (objs s) + length as < 2 ^ 64 \<longrightarrow> run as s = Done x s' \<longrightarrow>
            (\<forall>b n. cell (counters s') b = Some n \<longrightarrow>
               unat n = length (referrers (objs s') b))) \<and>
         (\<forall>N hs. length (objs s) + N + 1 < 2 ^ 64 \<longrightarrow> distinct hs \<longrightarrow>
            set hs = {length (objs s) ..< length (objs s) + N + 1} \<longrightarrow>
            (\<exists>s'. run (New # replicate N (Copy (length (objs s))) @ map Destroy hs) s =
                    Done () s' \<and>
               cell (mutexes s') (length (counters s)) = None \<and>
               cell (counters s') (length (counters s)) = None \<and>
               cell (flags s') (length (counters s)) = None \<and>
               frees (length (counters s)) (events_since s s') =
                 [Ev_delete_mutex (length (counters s)), Ev_delete_counter (length (counters s)),
                  Ev_delete_flag (length (counters s))] \<and>
               map unat (stores (length (counters s)) (events_since s s')) =
                 [2..<N + 2] @ rev [0..<N + 1]))"
proof (intro conjI allI impI)
  show "cell (counters (state_of (MutexValidator_new s))) (length (counters s)) = Some 1"
    by (simp add: MutexValidator_new_def cell_append)
next
  fix as x s' b n
  assume "length (objs s) + length as < 2 ^ 64" "run as s = Done x s'"
  then have "consistent s'" using assms by (rule consistent_run[rotated])
  moreover assume "cell (counters s') b = Some n"
  ultimately show "unat n = length (referrers (objs s') b)"
    by (simp add: consistent_iff)
next
  fix N hs
  assume "length (objs s) + N + 1 < 2 ^ 64" "distinct hs"
    "set hs = {length (objs s) ..< length (objs s) + N + 1}"
  then show "\<exists>s'. run (New # replicate N (Copy (length (objs s))) @ map Destroy hs) s =
                    Done () s' \<and>
               cell (mutexes s') (length (counters s)) = None \<and>
               cell (counters s') (length (counters s)) = None \<and>
               cell (flags s') (length (counters s)) = None \<and>
               frees (length (counters s)) (events_since s s') =
                 [Ev_delete_mutex (length (counters s)), Ev_delete_counter (length (counters s)),
                  Ev_delete_flag (length (counters s))] \<and>
               map unat (stores (length (counters s)) (events_since s s')) =
                 [2..<N + 2] @ rev [0..<N + 1]"
    using assms by (rule new_then_copies_then_destroy[rotated])
qed

theorem refcount_lifecycle_witness:
  "consistent start \<and>
   cell (counters (state_of (MutexValidator_new start))) 0 = Some 1 \<and>
   fault_of (run [New, Copy 0, New, Assign 2 0, Destroy 1] start) = None \<and>
   cell (counters (state_of (run [New, Copy 0, New, Assign 2 0, Destroy 1] start))) 0 = Some 2 \<and>
   cell (counters (state_of (run [New, Copy 0, New, Assign 2 0, Destroy 1] start))) 1 = None \<and>
   unat (2 :: size_t) =
     length (referrers (objs (state_of (run [New, Copy 0, New, Assign 2 0, Destroy 1] start))) 0) \<and>
   (\<exists>s'. run [New, Copy 0, Copy 0, Destroy 1, Destroy 2, Destroy 0] start = Done () s' \<and>
      cell (mutexes s') 0 = None \<and> cell (counters s') 0 = None \<and> cell (flags s') 0 = None \<and>
      frees 0 (events_since start s') = [Ev_delete_mutex 0, Ev_delete_counter 0, Ev_delete_flag 0] \<and>
      map unat (stores 0 (events_since start s')) = [2, 3, 2, 1, 0])"
proof -
  let ?r = "run [New, Copy 0, New, Assign 2 0, Destroy 1] start"
  have c: "consistent start" by (rule consistent_start)
  note T = refcount_lifecycle[OF c]
  have l: "length (objs start) = 0" "length (counters start) = 0" by (simp_all add: start_def)
  have r: "?r = Done () (state_of ?r)" by code_simp
  have f: "fault_of ?r = None" by code_simp
  have k: "cell (counters (state_of ?r)) 0 = Some 2" by code_simp
  have k1: "cell (counters (state_of ?r)) 1 = None" by code_simp
  have b: "length (objs start) + length [New, Copy 0, New, Assign 2 0, Destroy 1] < 2 ^ 64"
    by (simp add: l)
  from T b r k have inv: "unat (2 :: size_t) = length (referrers (objs (state_of ?r)) 0)"
    by blast
  have h1: "length (objs start) + 2 + 1 < 2 ^ 64" by (simp add: l)
  have h2: "distinct [1, 2, 0 :: nat]" by simp
  have h3: "set [1, 2, 0] = {length (objs start) ..< length (objs start) + 2 + 1}"
    by (auto simp: l)
  from T h1 h2 h3 have "\<exists>s'. run (New # replicate 2 (Copy (length (objs start))) @
                    map Destroy [1, 2, 0]) start = Done () s' \<and>
               cell (mutexes s') (length (counters start)) = None \<and>
               cell (counters s') (length (counters start)) = None \<and>
               cell (flags s') (length (counters start)) = None \<and>
               frees (length (counters start)) (events_since start s') =
                 [Ev_delete_mutex (length (counters start)), Ev_delete_counter (length (counters start)),
                  Ev_delete_flag (length (counters start))] \<and>
               map unat (stores (length (counters start)) (events_since start s')) =
                 [2..<2 + 2] @ rev [0..<2 + 1]"
    by blast
  moreover have "replicate 2 (Copy 0) = [Copy 0, Copy 0]" by (simp add: numeral_2_eq_2)
  moreover have "[2..<2 + 2] @ rev [0..<2 + 1] = [2, 3, 2, 1, 0 :: nat]" by code_simp
  ultimately have d: "\<exists>s'. run [New, Copy 0, Copy 0, Destroy 1, Destroy 2, Destroy 0] start =
            Done () s' \<and>
      cell (mutexes s') 0 = None \<and> cell (counters s') 0 = None \<and> cell (flags s') 0 = None \<and>
      frees 0 (events_since start s') = [Ev_delete_mutex 0, Ev_delete_counter 0, Ev_delete_flag 0] \<and>
      map unat (stores 0 (events_since start s')) = [2, 3, 2, 1, 0]"
    by (simp add: l)
  have n: "cell (counters (state_of (MutexValidator_new start))) 0 = Some 1"
    using T l by simp
  show ?thesis using c n f k k1 inv d by blast
qed

section \<open>The demonstration program\<close>

text \<open>
  C8. \<open>main\<close> prints \<open>1\<close> and \<open>0\<close>, each on its own line, and returns 0. Its last
  call, made by the destructor of the local \<open>mwv\<close> when \<open>main\<close> returns, is the unlock
  of the mutex that destructor has just deleted (C5).
\<close>

theorem main_result:
  "value_of main = Some 0 \<and>
   fault_of main = None \<and>
   out (state_of main) = [CHR ''1'', CHR 0x0A, CHR ''0'', CHR 0x0A] \<and>
   last (trace (state_of main)) = Ev_unlock_deleted 0"
  by code_simp

end
